theory Spec2Isabelle
  imports Main
begin

section \<open>The host document\<close>

text \<open>
  The script works on the object graph of the host application.  An element identifier
  is the integer value of the host's \<^verbatim>\<open>ElementId\<close>; \<^verbatim>\<open>InvalidElementId\<close> has the
  value -1.  Every element has a \<^verbatim>\<open>Name\<close>; only a viewport has a \<^verbatim>\<open>ViewId\<close>.
  A document is the list of its sheets in the order in which the element collector
  returns them (each sheet given by what \<^verbatim>\<open>GetAllViewports\<close> returns for it) and the
  store that \<^verbatim>\<open>doc.GetElement\<close> reads.
\<close>

type_synonym elem_id = int

definition InvalidElementId :: elem_id where
  "InvalidElementId = - 1"

datatype element = Viewport (Name: string) elem_id | View (Name: string)

record document =
  sheets :: "elem_id list list"
  elements :: "elem_id \<rightharpoonup> element"

definition GetElement :: "document \<Rightarrow> elem_id \<Rightarrow> element option" where
  "GetElement d i = elements d i"

text \<open>
  A Python variable bound to a host element is a reference into the store: assigning to
  its \<^verbatim>\<open>Name\<close> changes the document.  The reference to an element is its address in
  the store, the element identifier.
\<close>

type_synonym view_ref = elem_id

fun rename_element :: "string \<Rightarrow> element \<Rightarrow> element" where
  "rename_element n (Viewport _ v) = Viewport n v"
| "rename_element n (View _) = View n"

definition get_Name :: "document \<Rightarrow> view_ref \<Rightarrow> string" where
  "get_Name d r = (case elements d r of None \<Rightarrow> [] | Some e \<Rightarrow> Name e)"

definition set_Name :: "view_ref \<Rightarrow> string \<Rightarrow> document \<Rightarrow> document" where
  "set_Name r n d =
     (case elements d r of
        None \<Rightarrow> d
      | Some e \<Rightarrow> d\<lparr>elements := (elements d)(r \<mapsto> rename_element n e)\<rparr>)"

section \<open>Discovery\<close>

text \<open>
  \<^verbatim>\<open>framing_elevation_views\<close> is a Python dict from view identifier to view; it is
  kept as an association list in insertion order, the order in which \<^verbatim>\<open>values()\<close>
  iterates.
\<close>

type_synonym dict = "(elem_id \<times> view_ref) list"

definition dict_keys :: "dict \<Rightarrow> elem_id list" where
  "dict_keys fev = map fst fev"

definition dict_values :: "dict \<Rightarrow> view_ref list" where
  "dict_values fev = map snd fev"

definition dict_set :: "elem_id \<Rightarrow> view_ref \<Rightarrow> dict \<Rightarrow> dict" where
  "dict_set k v fev =
     (if k \<in> set (dict_keys fev)
      then map (\<lambda>(k', v'). if k' = k then (k', v) else (k', v')) fev
      else fev @ [(k, v)])"

datatype py_error = AttributeError

text \<open>
  The loops of Discovery as a function of the document they read: the inner loop over
  the viewports of one sheet and the outer loop over the sheets.
  \<^verbatim>\<open>doc.GetElement(vp_id).ViewId\<close> raises when the identifier does not resolve to an
  element with a \<^verbatim>\<open>ViewId\<close>.  The same loops with the host state passed through each
  call follow below, once the host state is defined.
\<close>

fun viewport_loop :: "document \<Rightarrow> elem_id list \<Rightarrow> dict \<Rightarrow> py_error + dict" where
  "viewport_loop d [] fev = Inr fev"
| "viewport_loop d (vp_id # rest) fev =
     (case GetElement d vp_id of
        None \<Rightarrow> Inl AttributeError
      | Some (View _) \<Rightarrow> Inl AttributeError
      | Some (Viewport _ view_id) \<Rightarrow>
          (if view_id \<noteq> InvalidElementId \<and> view_id \<notin> set (dict_keys fev)
           then (case GetElement d view_id of
                   None \<Rightarrow> viewport_loop d rest fev
                 | Some view \<Rightarrow>
                     if Name view = ''Framing Elevation''
                     then viewport_loop d rest (dict_set view_id view_id fev)
                     else viewport_loop d rest fev)
           else viewport_loop d rest fev))"

fun sheet_loop :: "document \<Rightarrow> elem_id list list \<Rightarrow> dict \<Rightarrow> py_error + dict" where
  "sheet_loop d [] fev = Inr fev"
| "sheet_loop d (viewport_ids # rest) fev =
     (if viewport_ids = [] then sheet_loop d rest fev
      else (case viewport_loop d viewport_ids fev of
              Inl e \<Rightarrow> Inl e
            | Inr fev' \<Rightarrow> sheet_loop d rest fev'))"

definition discovery :: "document \<Rightarrow> py_error + dict" where
  "discovery d = sheet_loop d (sheets d) []"

section \<open>Dialogs and transactions of the host\<close>

text \<open>
  The host state is the live document, the state saved when the transaction group was
  started, the state saved when the current sub-transaction was started, and the trace
  of the calls the script has made to the dialogs and to the transaction interface.
  Rolling back restores the saved state; disposing (leaving a \<^verbatim>\<open>with\<close> block) rolls
  back what is still open.
\<close>

datatype event =
    Alert string string
  | AskForString
  | GroupStart | GroupRollBack | GroupAssimilate
  | TransStart | TransCommit

record host =
  doc :: document
  group_saved :: "document option"
  trans_saved :: "document option"
  events :: "event list"

definition log :: "event \<Rightarrow> host \<Rightarrow> host" where
  "log ev h = h\<lparr>events := events h @ [ev]\<rparr>"

definition alert :: "string \<Rightarrow> string \<Rightarrow> host \<Rightarrow> host" where
  "alert msg title h = log (Alert msg title) h"

definition tg_Start :: "host \<Rightarrow> host" where
  "tg_Start h = log GroupStart (h\<lparr>group_saved := Some (doc h)\<rparr>)"

definition tg_Dispose :: "host \<Rightarrow> host" where
  "tg_Dispose h =
     (case group_saved h of
        None \<Rightarrow> h
      | Some d \<Rightarrow> h\<lparr>doc := d, group_saved := None\<rparr>)"

definition tg_RollBack :: "host \<Rightarrow> host" where
  "tg_RollBack h = log GroupRollBack (tg_Dispose h)"

definition tg_Assimilate :: "host \<Rightarrow> host" where
  "tg_Assimilate h = log GroupAssimilate (h\<lparr>group_saved := None\<rparr>)"

definition t_Start :: "host \<Rightarrow> host" where
  "t_Start h = log TransStart (h\<lparr>trans_saved := Some (doc h)\<rparr>)"

definition t_Commit :: "host \<Rightarrow> host" where
  "t_Commit h = log TransCommit (h\<lparr>trans_saved := None\<rparr>)"

definition t_Dispose :: "host \<Rightarrow> host" where
  "t_Dispose h =
     (case trans_saved h of
        None \<Rightarrow> h
      | Some d \<Rightarrow> h\<lparr>doc := d, trans_saved := None\<rparr>)"

definition assign_Name :: "view_ref \<Rightarrow> string \<Rightarrow> host \<Rightarrow> host" where
  "assign_Name r n h = h\<lparr>doc := set_Name r n (doc h)\<rparr>"

text \<open>
  Whether the host accepts a rename is the host's decision.  It is a parameter of the
  run: for the document as it is when the sub-transaction is entered, the view and the
  new name, the host answers with no fault, or with the call that raises and the text
  of the exception.
\<close>

datatype fault = StartRaises string | SetterRaises string | CommitRaises string

type_synonym host_faults = "document \<Rightarrow> view_ref \<Rightarrow> string \<Rightarrow> fault option"

section \<open>Discovery as the run performs it\<close>

text \<open>
  The script does not compute on a document value: it calls the host.  Here the loops of
  Discovery are written as they run, with the host state passed through every call to
  the host: the element collector, \<^verbatim>\<open>GetAllViewports\<close> and \<^verbatim>\<open>doc.GetElement\<close>.  These
  are the host's queries; each returns its answer and the state it was given.
\<close>

definition collect_sheets :: "host \<Rightarrow> elem_id list list \<times> host" where
  "collect_sheets h = (sheets (doc h), h)"

definition GetAllViewports :: "elem_id list \<Rightarrow> host \<Rightarrow> elem_id list \<times> host" where
  "GetAllViewports sheet h = (sheet, h)"

definition doc_GetElement :: "elem_id \<Rightarrow> host \<Rightarrow> element option \<times> host" where
  "doc_GetElement i h = (GetElement (doc h) i, h)"

fun viewport_loop_host :: "elem_id list \<Rightarrow> dict \<Rightarrow> host \<Rightarrow> (py_error + dict) \<times> host" where
  "viewport_loop_host [] fev h = (Inr fev, h)"
| "viewport_loop_host (vp_id # rest) fev h =
     (case doc_GetElement vp_id h of
        (None, h1) \<Rightarrow> (Inl AttributeError, h1)
      | (Some (View _), h1) \<Rightarrow> (Inl AttributeError, h1)
      | (Some (Viewport _ view_id), h1) \<Rightarrow>
          (if view_id \<noteq> InvalidElementId \<and> view_id \<notin> set (dict_keys fev)
           then (case doc_GetElement view_id h1 of
                   (None, h2) \<Rightarrow> viewport_loop_host rest fev h2
                 | (Some view, h2) \<Rightarrow>
                     if Name view = ''Framing Elevation''
                     then viewport_loop_host rest (dict_set view_id view_id fev) h2
                     else viewport_loop_host rest fev h2)
           else viewport_loop_host rest fev h1))"

fun sheet_loop_host :: "elem_id list list \<Rightarrow> dict \<Rightarrow> host \<Rightarrow> (py_error + dict) \<times> host" where
  "sheet_loop_host [] fev h = (Inr fev, h)"
| "sheet_loop_host (sheet # rest) fev h =
     (case GetAllViewports sheet h of
        (viewport_ids, h1) \<Rightarrow>
          if viewport_ids = [] then sheet_loop_host rest fev h1
          else (case viewport_loop_host viewport_ids fev h1 of
                  (Inl e, h2) \<Rightarrow> (Inl e, h2)
                | (Inr fev', h2) \<Rightarrow> sheet_loop_host rest fev' h2))"

definition discovery_phase :: "host \<Rightarrow> (py_error + dict) \<times> host" where
  "discovery_phase h =
     (case collect_sheets h of (all_sheets, h1) \<Rightarrow> sheet_loop_host all_sheets [] h1)"

section \<open>String formatting\<close>

definition digit_char :: "nat \<Rightarrow> char" where
  "digit_char n = ''0123456789'' ! n"

function str_nat :: "nat \<Rightarrow> string" where
  "str_nat n = (if n < 10 then [digit_char n] else str_nat (n div 10) @ [digit_char (n mod 10)])"
  by pat_completeness auto
termination
  by (relation "measure id") auto

declare str_nat.simps [simp del]

definition str_int :: "int \<Rightarrow> string" where
  "str_int i = (if i < 0 then CHR ''-'' # str_nat (nat (- i)) else str_nat (nat i))"

definition final_name :: "string \<Rightarrow> int \<Rightarrow> string" where
  "final_name new_base_name counter = new_base_name @ '' - '' @ str_int counter"

definition failure_message :: "string \<Rightarrow> string \<Rightarrow> string" where
  "failure_message name e =
     ''Failed to rename view '' @ [CHR 0x27] @ name @ [CHR 0x27] @ ''.'' @ [CHR 0x0A]
       @ ''Error: '' @ e"

definition success_message :: "int \<Rightarrow> string" where
  "success_message renamed_count =
     ''Successfully renamed '' @ str_int renamed_count @ '' view(s).''"

section \<open>The rename loop\<close>

text \<open>
  The body of the \<^verbatim>\<open>try\<close>: start the sub-transaction, assign the name, commit.  The
  \<^verbatim>\<open>with\<close> block disposes the sub-transaction on the way out, also when one of the
  three calls raises; the result is the text of the exception, or unit.
\<close>

definition rename_view :: "host_faults \<Rightarrow> view_ref \<Rightarrow> string \<Rightarrow> host \<Rightarrow> (string + unit) \<times> host" where
  "rename_view hf view n h =
     (case hf (doc h) view n of
        Some (StartRaises e) \<Rightarrow> (Inl e, t_Dispose (log TransStart h))
      | Some (SetterRaises e) \<Rightarrow> (Inl e, t_Dispose (t_Start h))
      | Some (CommitRaises e) \<Rightarrow>
          (Inl e, t_Dispose (log TransCommit (assign_Name view n (t_Start h))))
      | None \<Rightarrow> (Inr (), t_Dispose (t_Commit (assign_Name view n (t_Start h)))))"

datatype stop = SystemExit | Unhandled py_error

fun rename_loop ::
  "host_faults \<Rightarrow> string \<Rightarrow> view_ref list \<Rightarrow> int \<times> int \<Rightarrow> host \<Rightarrow> (stop + int \<times> int) \<times> host" where
  "rename_loop hf new_base_name [] (renamed_count, counter) h = (Inr (renamed_count, counter), h)"
| "rename_loop hf new_base_name (view # rest) (renamed_count, counter) h =
     (case rename_view hf view (final_name new_base_name counter) h of
        (Inr _, h1) \<Rightarrow> rename_loop hf new_base_name rest (renamed_count + 1, counter + 1) h1
      | (Inl e, h1) \<Rightarrow>
          (Inl SystemExit,
           tg_RollBack (alert (failure_message (get_Name (doc h1) view) e) ''Error'' h1)))"

definition rename_phase ::
  "host_faults \<Rightarrow> string \<Rightarrow> dict \<Rightarrow> host \<Rightarrow> (stop + int \<times> int) \<times> host" where
  "rename_phase hf new_base_name fev h =
     (case rename_loop hf new_base_name (dict_values fev) (0, 1) (tg_Start h) of
        (Inl s, h1) \<Rightarrow> (Inl s, tg_Dispose h1)
      | (Inr rc, h1) \<Rightarrow> (Inr rc, tg_Dispose (tg_Assimilate h1)))"

definition final_report :: "int \<Rightarrow> host \<Rightarrow> host" where
  "final_report renamed_count h =
     (if renamed_count > 0
      then alert (success_message renamed_count) ''Process Complete'' h
      else alert ''No views were renamed.'' ''Process Complete'' h)"

section \<open>The whole script\<close>

definition start_host :: "document \<Rightarrow> host" where
  "start_host d = \<lparr>doc = d, group_saved = None, trans_saved = None, events = []\<rparr>"

definition cancelled :: "host \<Rightarrow> (stop + unit) \<times> host" where
  "cancelled h =
     (Inl SystemExit, alert ''Operation cancelled. No views were renamed.'' ''Cancelled'' h)"

text \<open>
  A run takes the host's fault behaviour, what the text prompt returns (\<open>None\<close> when the
  user cancels) and the document.  It ends by \<^verbatim>\<open>script.exit()\<close>, by an unhandled
  exception, or by falling off the end of the script (\<open>Inr ()\<close>).
\<close>

definition run :: "host_faults \<Rightarrow> string option \<Rightarrow> document \<Rightarrow> (stop + unit) \<times> host" where
  "run hf reply d =
     (case discovery_phase (start_host d) of
        (Inl e, h) \<Rightarrow> (Inl (Unhandled e), h)
      | (Inr framing_elevation_views, h) \<Rightarrow>
          if framing_elevation_views = []
          then (Inl SystemExit,
                alert ''No 'Framing Elevation' views were found on any sheets.''
                      ''No Views Found'' h)
          else
            (let h1 = log AskForString h in
             case reply of
               None \<Rightarrow> cancelled h1
             | Some new_base_name \<Rightarrow>
                 if new_base_name = [] then cancelled h1
                 else (case rename_phase hf new_base_name framing_elevation_views h1 of
                         (Inl s, h2) \<Rightarrow> (Inl s, h2)
                       | (Inr (renamed_count, counter), h2) \<Rightarrow>
                           (Inr (), final_report renamed_count h2))))"

section \<open>Vocabulary of the properties\<close>

text \<open>
  A view matches when it resolves in the store and its name is the target string.  A
  viewport shows a view when it resolves to a viewport whose \<^verbatim>\<open>ViewId\<close> is that view;
  a view is on a sheet when one of the sheet's viewports shows it.
\<close>

definition matching :: "document \<Rightarrow> elem_id \<Rightarrow> bool" where
  "matching d k \<longleftrightarrow>
     (case GetElement d k of None \<Rightarrow> False | Some e \<Rightarrow> Name e = ''Framing Elevation'')"

definition shows_view :: "document \<Rightarrow> elem_id \<Rightarrow> elem_id \<Rightarrow> bool" where
  "shows_view d vp_id k \<longleftrightarrow>
     (case GetElement d vp_id of Some (Viewport _ v) \<Rightarrow> v = k | _ \<Rightarrow> False)"

definition shown_by :: "document \<Rightarrow> elem_id list \<Rightarrow> elem_id \<Rightarrow> bool" where
  "shown_by d viewport_ids k \<longleftrightarrow> (\<exists>vp_id \<in> set viewport_ids. shows_view d vp_id k)"

definition on_sheets :: "document \<Rightarrow> elem_id list list \<Rightarrow> elem_id \<Rightarrow> bool" where
  "on_sheets d ss k \<longleftrightarrow> (\<exists>viewport_ids \<in> set ss. shown_by d viewport_ids k)"

definition on_sheet :: "document \<Rightarrow> elem_id \<Rightarrow> bool" where
  "on_sheet d k \<longleftrightarrow> on_sheets d (sheets d) k"

text \<open>
  A document is well formed when every identifier that a sheet lists as a viewport
  resolves to a viewport, as the identifiers returned by the host do.
\<close>

definition is_viewport :: "document \<Rightarrow> elem_id \<Rightarrow> bool" where
  "is_viewport d vp_id \<longleftrightarrow>
     (case GetElement d vp_id of Some (Viewport _ _) \<Rightarrow> True | _ \<Rightarrow> False)"

definition wf_document :: "document \<Rightarrow> bool" where
  "wf_document d \<longleftrightarrow>
     (\<forall>viewport_ids \<in> set (sheets d). \<forall>vp_id \<in> set viewport_ids. is_viewport d vp_id)"

text \<open>The alert dialogs of a trace, as pairs of message and title.\<close>

fun alerts_of :: "event list \<Rightarrow> (string \<times> string) list" where
  "alerts_of [] = []"
| "alerts_of (Alert msg title # es) = (msg, title) # alerts_of es"
| "alerts_of (_ # es) = alerts_of es"

text \<open>A stretch of trace made of sub-transaction calls only.\<close>

definition quiet :: "event list \<Rightarrow> bool" where
  "quiet es \<longleftrightarrow> set es \<subseteq> {TransStart, TransCommit}"

fun fault_text :: "fault \<Rightarrow> string" where
  "fault_text (StartRaises e) = e"
| "fault_text (SetterRaises e) = e"
| "fault_text (CommitRaises e) = e"

text \<open>
  The behaviour of the host along a run: \<open>renamed B vs c d\<close> is the document \<open>d\<close> after
  the views \<open>vs\<close> have taken the names numbered from \<open>c\<close> on, and
  \<open>renames_accepted hf B vs c d\<close> says that the host raises at none of these renames,
  each asked on the document the renames before it have left.
\<close>

fun renamed :: "string \<Rightarrow> view_ref list \<Rightarrow> int \<Rightarrow> document \<Rightarrow> document" where
  "renamed B [] c d = d"
| "renamed B (v # vs) c d = renamed B vs (c + 1) (set_Name v (final_name B c) d)"

fun renames_accepted :: "host_faults \<Rightarrow> string \<Rightarrow> view_ref list \<Rightarrow> int \<Rightarrow> document \<Rightarrow> bool" where
  "renames_accepted hf B [] c d = True"
| "renames_accepted hf B (v # vs) c d =
     (hf d v (final_name B c) = None \<and>
      renames_accepted hf B vs (c + 1) (set_Name v (final_name B c) d))"

text \<open>
  A document for the examples: sheet A shows view 10 and the view ``Plan'' (12), sheet B
  shows view 10 again and view 11 twice, sheet C is empty.
\<close>

definition scenario :: document where
  "scenario = \<lparr>sheets = [[100, 101], [102, 103, 104], []],
     elements = [100 \<mapsto> Viewport ''A1'' 10, 101 \<mapsto> Viewport ''A2'' 12,
                 102 \<mapsto> Viewport ''B1'' 10, 103 \<mapsto> Viewport ''B2'' 11,
                 104 \<mapsto> Viewport ''B3'' 11,
                 10 \<mapsto> View ''Framing Elevation'', 11 \<mapsto> View ''Framing Elevation'',
                 12 \<mapsto> View ''Plan'']\<rparr>"

text \<open>
  The number a string of decimal digits denotes, for reading back what \<open>str_int\<close> writes.
\<close>

definition digit_value :: "char \<Rightarrow> nat" where
  "digit_value ch = of_char ch - 48"

definition decimal_value :: "string \<Rightarrow> nat" where
  "decimal_value s = foldl (\<lambda>a ch. 10 * a + digit_value ch) 0 s"

text \<open>The titles of the four dialogs that end a run.\<close>

definition terminal_titles :: "string list" where
  "terminal_titles = [''No Views Found'', ''Cancelled'', ''Error'', ''Process Complete'']"

text \<open>
  Hosts for the examples: one that refuses to rename view 11, one that accepts every
  rename; and a document whose only placed view is a plan.
\<close>

definition scenario_faults :: host_faults where
  "scenario_faults d view n = (if view = 11 then Some (SetterRaises ''name in use'') else None)"

definition no_faults :: host_faults where
  "no_faults d view n = None"

definition plans_only :: document where
  "plans_only = \<lparr>sheets = [[100], []],
     elements = [100 \<mapsto> Viewport ''A1'' 12, 12 \<mapsto> View ''Plan'']\<rparr>"

section \<open>Discovery: what the loops keep\<close>

lemma shows_view_iff:
  "shows_view d vp_id k \<longleftrightarrow> (\<exists>n. GetElement d vp_id = Some (Viewport n k))"
  by (auto simp: shows_view_def split: option.splits element.splits)

lemma dict_set_fresh: "k \<notin> set (dict_keys fev) \<Longrightarrow> dict_set k v fev = fev @ [(k, v)]"
  by (simp add: dict_set_def)

lemma shown_by_Cons:
  "shown_by d (vp_id # rest) k \<longleftrightarrow> shows_view d vp_id k \<or> shown_by d rest k"
  by (simp add: shown_by_def)

lemma shown_by_Nil: "\<not> shown_by d [] k"
  by (simp add: shown_by_def)

lemma viewport_loop_sound:
  "viewport_loop d vps fev = Inr fev' \<Longrightarrow> (k, r) \<in> set fev' \<Longrightarrow>
     (k, r) \<in> set fev \<or> (r = k \<and> k \<noteq> InvalidElementId \<and> matching d k \<and> shown_by d vps k)"
proof (induction vps arbitrary: fev)
  case Nil
  then show ?case by simp
next
  case (Cons vp_id rest)
  show ?case
  proof (cases "GetElement d vp_id")
    case None
    with Cons.prems show ?thesis by simp
  next
    case (Some el)
    show ?thesis
    proof (cases el)
      case (View n)
      with Some Cons.prems show ?thesis by simp
    next
      case (Viewport n view_id)
      let ?add = "view_id \<noteq> InvalidElementId \<and> view_id \<notin> set (dict_keys fev) \<and> matching d view_id"
      let ?mid = "if ?add then fev @ [(view_id, view_id)] else fev"
      have run: "viewport_loop d rest ?mid = Inr fev'"
        using Cons.prems(1) Some Viewport
        by (auto simp: matching_def dict_set_fresh split: option.splits if_splits)
      have here: "shown_by d (vp_id # rest) view_id"
        using Some Viewport by (simp add: shown_by_Cons shows_view_def)
      have later: "shown_by d rest k \<Longrightarrow> shown_by d (vp_id # rest) k"
        by (simp add: shown_by_Cons)
      from Cons.IH [OF run Cons.prems(2)] here later show ?thesis
        by (auto split: if_splits)
    qed
  qed
qed

lemma viewport_loop_keys:
  "viewport_loop d vps fev = Inr fev' \<Longrightarrow> distinct (dict_keys fev) \<Longrightarrow>
     distinct (dict_keys fev') \<and> set (dict_keys fev) \<subseteq> set (dict_keys fev')"
proof (induction vps arbitrary: fev)
  case Nil
  then show ?case by simp
next
  case (Cons vp_id rest)
  show ?case
  proof (cases "GetElement d vp_id")
    case None
    with Cons.prems show ?thesis by simp
  next
    case (Some el)
    show ?thesis
    proof (cases el)
      case (View n)
      with Some Cons.prems show ?thesis by simp
    next
      case (Viewport n view_id)
      let ?add = "view_id \<noteq> InvalidElementId \<and> view_id \<notin> set (dict_keys fev) \<and> matching d view_id"
      show ?thesis
      proof (cases ?add)
        case True
        then have run: "viewport_loop d rest (fev @ [(view_id, view_id)]) = Inr fev'"
          using Cons.prems(1) Some Viewport
          by (auto simp: matching_def dict_set_fresh split: option.splits if_splits)
        have "distinct (dict_keys (fev @ [(view_id, view_id)]))"
          using True Cons.prems(2) by (simp add: dict_keys_def)
        from Cons.IH [OF run this] show ?thesis by (simp add: dict_keys_def)
      next
        case False
        then have run: "viewport_loop d rest fev = Inr fev'"
          using Cons.prems(1) Some Viewport
          by (auto simp: matching_def split: option.splits if_splits)
        from Cons.IH [OF run Cons.prems(2)] show ?thesis .
      qed
    qed
  qed
qed

lemma viewport_loop_complete:
  "viewport_loop d vps fev = Inr fev' \<Longrightarrow> distinct (dict_keys fev) \<Longrightarrow>
   shown_by d vps k \<Longrightarrow> k \<noteq> InvalidElementId \<Longrightarrow> matching d k \<Longrightarrow> k \<in> set (dict_keys fev')"
proof (induction vps arbitrary: fev)
  case Nil
  then show ?case by (simp add: shown_by_Nil)
next
  case (Cons vp_id rest)
  show ?case
  proof (cases "GetElement d vp_id")
    case None
    with Cons.prems show ?thesis by simp
  next
    case (Some el)
    show ?thesis
    proof (cases el)
      case (View n)
      with Some Cons.prems show ?thesis by simp
    next
      case (Viewport n view_id)
      let ?add = "view_id \<noteq> InvalidElementId \<and> view_id \<notin> set (dict_keys fev) \<and> matching d view_id"
      let ?mid = "if ?add then fev @ [(view_id, view_id)] else fev"
      have run: "viewport_loop d rest ?mid = Inr fev'"
        using Cons.prems(1) Some Viewport
        by (auto simp: matching_def dict_set_fresh split: option.splits if_splits)
      have dist: "distinct (dict_keys ?mid)"
        using Cons.prems(2) by (simp add: dict_keys_def)
      have mono: "set (dict_keys ?mid) \<subseteq> set (dict_keys fev')"
        using viewport_loop_keys [OF run dist] by simp
      show ?thesis
      proof (cases "view_id = k")
        case True
        then have "k \<in> set (dict_keys ?mid)"
          using Cons.prems(4,5) by (auto simp: dict_keys_def)
        with mono show ?thesis by blast
      next
        case False
        then have "shown_by d rest k"
          using Cons.prems(3) Some Viewport by (simp add: shown_by_Cons shows_view_def)
        from Cons.IH [OF run dist this Cons.prems(4,5)] show ?thesis .
      qed
    qed
  qed
qed

lemma sheet_loop_sound:
  "sheet_loop d ss fev = Inr fev' \<Longrightarrow> (k, r) \<in> set fev' \<Longrightarrow>
     (k, r) \<in> set fev \<or> (r = k \<and> k \<noteq> InvalidElementId \<and> matching d k \<and> on_sheets d ss k)"
proof (induction ss arbitrary: fev)
  case Nil
  then show ?case by simp
next
  case (Cons vps rest)
  show ?case
  proof (cases "vps = []")
    case True
    with Cons.prems have "sheet_loop d rest fev = Inr fev'" by simp
    from Cons.IH [OF this Cons.prems(2)] show ?thesis by (auto simp: on_sheets_def)
  next
    case False
    with Cons.prems obtain mid where
      inner: "viewport_loop d vps fev = Inr mid" and outer: "sheet_loop d rest mid = Inr fev'"
      by (auto split: sum.splits)
    from Cons.IH [OF outer Cons.prems(2)] viewport_loop_sound [OF inner, of k r]
    show ?thesis by (auto simp: on_sheets_def)
  qed
qed

lemma sheet_loop_keys:
  "sheet_loop d ss fev = Inr fev' \<Longrightarrow> distinct (dict_keys fev) \<Longrightarrow>
     distinct (dict_keys fev') \<and> set (dict_keys fev) \<subseteq> set (dict_keys fev')"
proof (induction ss arbitrary: fev)
  case Nil
  then show ?case by simp
next
  case (Cons vps rest)
  show ?case
  proof (cases "vps = []")
    case True
    with Cons.prems have "sheet_loop d rest fev = Inr fev'" by simp
    from Cons.IH [OF this Cons.prems(2)] show ?thesis .
  next
    case False
    with Cons.prems obtain mid where
      inner: "viewport_loop d vps fev = Inr mid" and outer: "sheet_loop d rest mid = Inr fev'"
      by (auto split: sum.splits)
    from viewport_loop_keys [OF inner Cons.prems(2)] Cons.IH [OF outer]
    show ?thesis by blast
  qed
qed

lemma sheet_loop_complete:
  "sheet_loop d ss fev = Inr fev' \<Longrightarrow> distinct (dict_keys fev) \<Longrightarrow>
   on_sheets d ss k \<Longrightarrow> k \<noteq> InvalidElementId \<Longrightarrow> matching d k \<Longrightarrow> k \<in> set (dict_keys fev')"
proof (induction ss arbitrary: fev)
  case Nil
  then show ?case by (simp add: on_sheets_def)
next
  case (Cons vps rest)
  show ?case
  proof (cases "vps = []")
    case True
    with Cons.prems have run: "sheet_loop d rest fev = Inr fev'" by simp
    from True Cons.prems(3) have "on_sheets d rest k"
      by (simp add: on_sheets_def shown_by_Nil)
    from Cons.IH [OF run Cons.prems(2) this Cons.prems(4,5)] show ?thesis .
  next
    case False
    with Cons.prems obtain mid where
      inner: "viewport_loop d vps fev = Inr mid" and outer: "sheet_loop d rest mid = Inr fev'"
      by (auto split: sum.splits)
    note mid = viewport_loop_keys [OF inner Cons.prems(2)]
    show ?thesis
    proof (cases "shown_by d vps k")
      case True
      from viewport_loop_complete [OF inner Cons.prems(2) True Cons.prems(4,5)]
        sheet_loop_keys [OF outer] mid
      show ?thesis by blast
    next
      case False
      with Cons.prems(3) have "on_sheets d rest k" by (simp add: on_sheets_def)
      from Cons.IH [OF outer _ this Cons.prems(4,5)] mid show ?thesis by blast
    qed
  qed
qed

lemma discovery_distinct:
  "discovery d = Inr fev \<Longrightarrow> distinct (dict_keys fev)"
  using sheet_loop_keys [of d "sheets d" "[]" fev] by (simp add: discovery_def dict_keys_def)

lemma discovery_sound:
  "discovery d = Inr fev \<Longrightarrow> (k, r) \<in> set fev \<Longrightarrow>
     r = k \<and> k \<noteq> InvalidElementId \<and> matching d k \<and> on_sheet d k"
  using sheet_loop_sound [of d "sheets d" "[]" fev k r]
  by (simp add: discovery_def on_sheet_def on_sheets_def)

lemma discovery_complete:
  "discovery d = Inr fev \<Longrightarrow> on_sheet d k \<Longrightarrow> k \<noteq> InvalidElementId \<Longrightarrow> matching d k \<Longrightarrow>
     k \<in> set (dict_keys fev)"
  using sheet_loop_complete [of d "sheets d" "[]" fev k]
  by (simp add: discovery_def on_sheet_def on_sheets_def dict_keys_def)

lemma count_list_distinct: "distinct xs \<Longrightarrow> x \<in> set xs \<Longrightarrow> count_list xs x = 1"
  by (induction xs) auto

lemma discovery_scenario: "discovery scenario = Inr [(10, 10), (11, 11)]"
  by (simp add: discovery_def scenario_def GetElement_def InvalidElementId_def dict_keys_def
        dict_set_def)

lemma viewport_loop_total:
  "\<forall>vp_id \<in> set vps. is_viewport d vp_id \<Longrightarrow> \<exists>fev'. viewport_loop d vps fev = Inr fev'"
proof (induction vps arbitrary: fev)
  case Nil
  then show ?case by simp
next
  case (Cons vp_id rest)
  from Cons.prems have "is_viewport d vp_id" by simp
  then obtain n view_id where vp: "GetElement d vp_id = Some (Viewport n view_id)"
    by (auto simp: is_viewport_def split: option.splits element.splits)
  from Cons.prems have rest: "\<forall>v \<in> set rest. is_viewport d v" by simp
  from Cons.IH [OF rest] vp show ?case
    by (simp split: option.splits)
qed

lemma sheet_loop_total:
  "\<forall>viewport_ids \<in> set ss. \<forall>vp_id \<in> set viewport_ids. is_viewport d vp_id \<Longrightarrow>
     \<exists>fev'. sheet_loop d ss fev = Inr fev'"
proof (induction ss arbitrary: fev)
  case Nil
  then show ?case by simp
next
  case (Cons vps rest)
  from Cons.prems have "\<forall>vp_id \<in> set vps. is_viewport d vp_id" by simp
  from viewport_loop_total [OF this, of fev] obtain mid where
    mid: "viewport_loop d vps fev = Inr mid" by blast
  from Cons.prems have rest: "\<forall>viewport_ids \<in> set rest. \<forall>vp_id \<in> set viewport_ids. is_viewport d vp_id"
    by simp
  from Cons.IH [OF rest, of fev] Cons.IH [OF rest, of mid] mid show ?case by simp
qed

lemma discovery_total: "wf_document d \<Longrightarrow> \<exists>fev. discovery d = Inr fev"
  unfolding discovery_def wf_document_def by (rule sheet_loop_total)

lemma viewport_loop_Inr_viewports:
  "viewport_loop d vps fev = Inr fev' \<Longrightarrow> \<forall>vp_id \<in> set vps. is_viewport d vp_id"
proof (induction vps arbitrary: fev)
  case Nil
  then show ?case by simp
next
  case (Cons vp_id rest)
  show ?case
  proof (cases "GetElement d vp_id")
    case None
    with Cons.prems show ?thesis by simp
  next
    case (Some el)
    show ?thesis
    proof (cases el)
      case (View n)
      with Some Cons.prems show ?thesis by simp
    next
      case (Viewport n view_id)
      with Some have here: "is_viewport d vp_id" by (simp add: is_viewport_def)
      from Cons.prems Some Viewport obtain mid where "viewport_loop d rest mid = Inr fev'"
        by (auto split: if_splits option.splits)
      from Cons.IH [OF this] here show ?thesis by simp
    qed
  qed
qed

lemma sheet_loop_Inr_viewports:
  "sheet_loop d ss fev = Inr fev' \<Longrightarrow>
     \<forall>viewport_ids \<in> set ss. \<forall>vp_id \<in> set viewport_ids. is_viewport d vp_id"
proof (induction ss arbitrary: fev)
  case Nil
  then show ?case by simp
next
  case (Cons vps rest)
  show ?case
  proof (cases "vps = []")
    case True
    with Cons.prems have "sheet_loop d rest fev = Inr fev'" by simp
    from Cons.IH [OF this] True show ?thesis by simp
  next
    case False
    with Cons.prems obtain mid where
      inner: "viewport_loop d vps fev = Inr mid" and outer: "sheet_loop d rest mid = Inr fev'"
      by (auto split: sum.splits)
    from viewport_loop_Inr_viewports [OF inner] Cons.IH [OF outer] show ?thesis by simp
  qed
qed

lemma discovery_returns_iff: "(\<exists>fev. discovery d = Inr fev) \<longleftrightarrow> wf_document d"
proof
  assume "\<exists>fev. discovery d = Inr fev"
  then obtain fev where "sheet_loop d (sheets d) [] = Inr fev" by (auto simp: discovery_def)
  from sheet_loop_Inr_viewports [OF this] show "wf_document d" by (simp add: wf_document_def)
next
  assume "wf_document d"
  then show "\<exists>fev. discovery d = Inr fev" by (rule discovery_total)
qed

lemma discovery_entries:
  assumes "discovery d = Inr fev"
  shows "set fev = {(k, k) | k. k \<noteq> InvalidElementId \<and> matching d k \<and> on_sheet d k}"
proof (intro set_eqI iffI)
  fix p assume "p \<in> set fev"
  moreover obtain k r where p: "p = (k, r)" by (cases p)
  ultimately have "(k, r) \<in> set fev" by simp
  from discovery_sound [OF assms this] p
  show "p \<in> {(k, k) | k. k \<noteq> InvalidElementId \<and> matching d k \<and> on_sheet d k}" by simp
next
  fix p assume "p \<in> {(k, k) | k. k \<noteq> InvalidElementId \<and> matching d k \<and> on_sheet d k}"
  then obtain k where p: "p = (k, k)" and k: "k \<noteq> InvalidElementId" "matching d k" "on_sheet d k"
    by auto
  from discovery_complete [OF assms k(3,1,2)] obtain r where r: "(k, r) \<in> set fev"
    by (auto simp: dict_keys_def)
  from discovery_sound [OF assms r] r p show "p \<in> set fev" by simp
qed


text \<open>
  C3.  Every entry of the mapping that Discovery returns is keyed by the identifier of
  the view it refers to, that view is named exactly ``Framing Elevation'', and a viewport
  of some sheet shows it.  An element with any other name is neither a key nor a value
  of the mapping, wherever it is placed.
\<close>

theorem discovery_filter:
  assumes "discovery d = Inr fev"
  shows "(\<forall>(view_id, view) \<in> set fev.
            view = view_id \<and>
            (\<exists>e. GetElement d view = Some e \<and> Name e = ''Framing Elevation'') \<and>
            (\<exists>viewport_ids \<in> set (sheets d). \<exists>vp_id \<in> set viewport_ids.
                \<exists>n. GetElement d vp_id = Some (Viewport n view_id))) \<and>
         (\<forall>k e. GetElement d k = Some e \<and> Name e \<noteq> ''Framing Elevation'' \<longrightarrow>
            k \<notin> set (dict_keys fev) \<and> k \<notin> set (dict_values fev))"
proof -
  have entry: "view = view_id \<and>
      (\<exists>e. GetElement d view = Some e \<and> Name e = ''Framing Elevation'') \<and>
      (\<exists>viewport_ids \<in> set (sheets d). \<exists>vp_id \<in> set viewport_ids.
          \<exists>n. GetElement d vp_id = Some (Viewport n view_id))"
    if "(view_id, view) \<in> set fev" for view_id view
  proof -
    from discovery_sound [OF assms that] have
      v: "view = view_id" and m: "matching d view_id" and s: "on_sheet d view_id"
      by simp_all
    from m v have "\<exists>e. GetElement d view = Some e \<and> Name e = ''Framing Elevation''"
      by (auto simp: matching_def split: option.splits)
    moreover from s have "\<exists>viewport_ids \<in> set (sheets d). \<exists>vp_id \<in> set viewport_ids.
               \<exists>n. GetElement d vp_id = Some (Viewport n view_id)"
      by (auto simp: on_sheet_def on_sheets_def shown_by_def shows_view_iff)
    ultimately show ?thesis using v by blast
  qed
  have other: "k \<notin> set (dict_keys fev) \<and> k \<notin> set (dict_values fev)"
    if "GetElement d k = Some e" and "Name e \<noteq> ''Framing Elevation''" for k e
  proof -
    have no: "\<not> matching d k"
      using that by (simp add: matching_def)
    have "(k', r) \<in> set fev \<Longrightarrow> k' \<noteq> k \<and> r \<noteq> k" for k' r
      using discovery_sound [OF assms, of k' r] no by auto
    then show ?thesis by (fastforce simp: dict_keys_def dict_values_def)
  qed
  from entry other show ?thesis by blast
qed

theorem discovery_filter_witness:
  "discovery scenario = Inr [(10, 10), (11, 11)] \<and>
   (\<exists>e. GetElement scenario 11 = Some e \<and> Name e = ''Framing Elevation'') \<and>
   (\<exists>viewport_ids \<in> set (sheets scenario). \<exists>vp_id \<in> set viewport_ids.
       \<exists>n. GetElement scenario vp_id = Some (Viewport n 11)) \<and>
   GetElement scenario 12 = Some (View ''Plan'') \<and>
   12 \<notin> set (dict_keys [(10, 10), (11, 11)])"
proof -
  have plan: "GetElement scenario 12 = Some (View ''Plan'')"
    by (simp add: scenario_def GetElement_def)
  from discovery_filter [OF discovery_scenario] plan discovery_scenario
  show ?thesis by (simp add: dict_keys_def)
qed

text \<open>
  C4.  A matching view that some viewport of some sheet shows, with a valid identifier,
  occurs exactly once among the keys and exactly once among the values of the mapping
  that Discovery returns, however many viewports on however many sheets show it, and
  the mapping sends its identifier to it.
\<close>

theorem discovery_dedup:
  assumes "discovery d = Inr fev"
    and "viewport_ids \<in> set (sheets d)" and "vp_id \<in> set viewport_ids"
    and "GetElement d vp_id = Some (Viewport n view_id)"
    and "view_id \<noteq> InvalidElementId"
    and "GetElement d view_id = Some view" and "Name view = ''Framing Elevation''"
  shows "count_list (dict_keys fev) view_id = 1 \<and> count_list (dict_values fev) view_id = 1 \<and>
         map_of fev view_id = Some view_id"
proof -
  have "shown_by d viewport_ids view_id"
    using assms(3,4) by (auto simp: shown_by_def shows_view_iff)
  then have "on_sheet d view_id"
    using assms(2) by (auto simp: on_sheet_def on_sheets_def)
  moreover have "matching d view_id"
    using assms(6,7) by (simp add: matching_def)
  ultimately have mem: "view_id \<in> set (dict_keys fev)"
    using discovery_complete [OF assms(1)] assms(5) by blast
  have dist: "distinct (dict_keys fev)"
    using assms(1) by (rule discovery_distinct)
  have same: "dict_values fev = dict_keys fev"
    using discovery_sound [OF assms(1)] by (auto simp: dict_keys_def dict_values_def)
  have one: "count_list (dict_keys fev) view_id = 1"
    using dist mem by (rule count_list_distinct)
  from mem obtain r where r: "(view_id, r) \<in> set fev"
    by (auto simp: dict_keys_def)
  with discovery_sound [OF assms(1) r] have "(view_id, view_id) \<in> set fev" by simp
  with dist have "map_of fev view_id = Some view_id"
    by (simp add: dict_keys_def)
  with one same show ?thesis by simp
qed

theorem discovery_dedup_witness:
  "discovery scenario = Inr [(10, 10), (11, 11)] \<and>
   [100, 101] \<in> set (sheets scenario) \<and> GetElement scenario 100 = Some (Viewport ''A1'' 10) \<and>
   [102, 103, 104] \<in> set (sheets scenario) \<and> GetElement scenario 102 = Some (Viewport ''B1'' 10) \<and>
   count_list (dict_keys [(10, 10), (11, 11)]) 10 = 1 \<and>
   count_list (dict_values [(10, 10), (11, 11)]) 10 = 1 \<and>
   map_of [(10, 10), (11, 11)] 10 = Some (10::int)"
proof -
  have a: "[102, 103, 104] \<in> set (sheets scenario)" by (simp add: scenario_def)
  have b: "(102::int) \<in> set [102, 103, 104]" by simp
  have c: "GetElement scenario 102 = Some (Viewport ''B1'' 10)"
    by (simp add: scenario_def GetElement_def)
  have e: "(10::int) \<noteq> InvalidElementId" by (simp add: InvalidElementId_def)
  have f: "GetElement scenario 10 = Some (View ''Framing Elevation'')"
    by (simp add: scenario_def GetElement_def)
  have g: "Name (View ''Framing Elevation'') = ''Framing Elevation''" by simp
  have h: "[100, 101] \<in> set (sheets scenario)" by (simp add: scenario_def)
  have i: "GetElement scenario 100 = Some (Viewport ''A1'' 10)"
    by (simp add: scenario_def GetElement_def)
  from discovery_dedup [OF discovery_scenario a b c e f g] discovery_scenario a c h i
  show ?thesis by simp
qed

section \<open>The store under renames\<close>

lemma get_Name_set_Name:
  "get_Name (set_Name r n d) r' = (if r' = r \<and> elements d r \<noteq> None then n else get_Name d r')"
proof (cases "elements d r")
  case None
  then show ?thesis by (simp add: get_Name_def set_Name_def)
next
  case (Some e)
  then show ?thesis by (cases e) (simp_all add: get_Name_def set_Name_def)
qed

lemma elements_set_Name_None:
  "elements (set_Name r n d) k = None \<longleftrightarrow> elements d k = None"
  by (simp add: set_Name_def split: option.splits)

lemma sheets_set_Name: "sheets (set_Name r n d) = sheets d"
  by (simp add: set_Name_def split: option.splits)

lemma elements_renamed_None:
  "elements (renamed B vs c d) k = None \<longleftrightarrow> elements d k = None"
  by (induction vs arbitrary: c d) (simp_all add: elements_set_Name_None)

lemma get_Name_renamed_other:
  "v \<notin> set vs \<Longrightarrow> get_Name (renamed B vs c d) v = get_Name d v"
  by (induction vs arbitrary: c d) (auto simp: get_Name_set_Name)

lemma get_Name_renamed_nth:
  "distinct vs \<Longrightarrow> \<forall>v \<in> set vs. elements d v \<noteq> None \<Longrightarrow> i < length vs \<Longrightarrow>
     get_Name (renamed B vs c d) (vs ! i) = final_name B (c + int i)"
proof (induction vs arbitrary: c d i)
  case Nil
  then show ?case by simp
next
  case (Cons v vs)
  let ?d = "set_Name v (final_name B c) d"
  show ?case
  proof (cases i)
    case 0
    from Cons.prems have "v \<notin> set vs" and "elements d v \<noteq> None" by simp_all
    then show ?thesis
      using 0 by (simp add: get_Name_renamed_other get_Name_set_Name)
  next
    case (Suc j)
    from Cons.prems have "distinct vs" and "\<forall>u \<in> set vs. elements ?d u \<noteq> None"
      by (simp_all add: elements_set_Name_None)
    moreover from Suc Cons.prems have "j < length vs" by simp
    ultimately have "get_Name (renamed B vs (c + 1) ?d) (vs ! j) = final_name B (c + 1 + int j)"
      by (rule Cons.IH)
    with Suc show ?thesis by (simp add: ac_simps)
  qed
qed

lemma get_Name_renamed_rest:
  "\<forall>v \<in> set vs. elements d v \<noteq> None \<Longrightarrow> u \<notin> set vs \<Longrightarrow>
     elements (renamed B vs c d) u = elements d u"
proof (induction vs arbitrary: c d)
  case Nil
  then show ?case by simp
next
  case (Cons v vs)
  let ?d = "set_Name v (final_name B c) d"
  from Cons.prems have "\<forall>w \<in> set vs. elements ?d w \<noteq> None" and "u \<notin> set vs"
    by (simp_all add: elements_set_Name_None)
  then have "elements (renamed B vs (c + 1) ?d) u = elements ?d u"
    by (rule Cons.IH)
  moreover from Cons.prems have "elements ?d u = elements d u"
    by (auto simp: set_Name_def split: option.splits)
  ultimately show ?case by simp
qed

lemma discovery_values_resolve:
  assumes "discovery d = Inr fev"
  shows "distinct (dict_values fev) \<and>
         (\<forall>v \<in> set (dict_values fev). elements d v \<noteq> None \<and> get_Name d v = ''Framing Elevation'')"
proof -
  have same: "dict_values fev = dict_keys fev"
    using discovery_sound [OF assms] by (auto simp: dict_keys_def dict_values_def)
  have "elements d v \<noteq> None \<and> get_Name d v = ''Framing Elevation''"
    if "v \<in> set (dict_values fev)" for v
  proof -
    from that obtain k where "(k, v) \<in> set fev" by (auto simp: dict_values_def)
    from discovery_sound [OF assms this] have "matching d v" by simp
    then show ?thesis
      by (auto simp: matching_def get_Name_def GetElement_def split: option.splits)
  qed
  with same discovery_distinct [OF assms] show ?thesis by simp
qed

section \<open>Decimal numerals\<close>

lemma digit_cases: "n < 10 \<Longrightarrow> n \<in> {0, 1, 2, 3, 4, 5, 6, 7, 8, 9::nat}"
  by auto

lemma digit_value_digit_char: "n < 10 \<Longrightarrow> digit_value (digit_char n) = n"
  using digit_cases [of n] by (auto simp: digit_value_def digit_char_def)

lemma digit_char_in: "n < 10 \<Longrightarrow> digit_char n \<in> set ''0123456789''"
  using digit_cases [of n] by (auto simp: digit_char_def)

lemma digit_char_zero: "n < 10 \<Longrightarrow> digit_char n = CHR ''0'' \<longleftrightarrow> n = 0"
  using digit_cases [of n] by (auto simp: digit_char_def)

lemma decimal_value_snoc:
  "decimal_value (s @ [ch]) = 10 * decimal_value s + digit_value ch"
  by (simp add: decimal_value_def)

lemma decimal_value_str_nat: "decimal_value (str_nat n) = n"
proof (induction n rule: str_nat.induct)
  case (1 n)
  show ?case
  proof (cases "n < 10")
    case True
    then show ?thesis
      by (simp add: str_nat.simps [of n] decimal_value_def digit_value_digit_char)
  next
    case False
    with "1" have "decimal_value (str_nat (n div 10)) = n div 10" by simp
    with False show ?thesis
      by (simp add: str_nat.simps [of n] decimal_value_snoc digit_value_digit_char)
  qed
qed

lemma str_nat_digits: "set (str_nat n) \<subseteq> set ''0123456789''"
proof (induction n rule: str_nat.induct)
  case (1 n)
  show ?case
  proof (cases "n < 10")
    case True
    with digit_char_in [of n] show ?thesis
      by (simp add: str_nat.simps [of n])
  next
    case False
    with "1" have "set (str_nat (n div 10)) \<subseteq> set ''0123456789''" by simp
    moreover have "digit_char (n mod 10) \<in> set ''0123456789''"
      by (rule digit_char_in) simp
    ultimately show ?thesis using False
      by (simp add: str_nat.simps [of n])
  qed
qed

lemma str_nat_nonempty: "str_nat n \<noteq> []"
  by (simp add: str_nat.simps [of n])

lemma str_nat_no_leading_zero: "0 < n \<Longrightarrow> hd (str_nat n) \<noteq> CHR ''0''"
proof (induction n rule: str_nat.induct)
  case (1 n)
  show ?case
  proof (cases "n < 10")
    case True
    with "1.prems" show ?thesis
      by (simp add: str_nat.simps [of n] digit_char_zero)
  next
    case False
    then have "0 < n div 10" by simp
    with "1.IH" False have "hd (str_nat (n div 10)) \<noteq> CHR ''0''" by simp
    with False show ?thesis
      by (simp add: str_nat.simps [of n] str_nat_nonempty)
  qed
qed

lemma str_int_inj: "0 \<le> i \<Longrightarrow> 0 \<le> j \<Longrightarrow> str_int i = str_int j \<Longrightarrow> i = j"
proof -
  assume i: "0 \<le> i" and j: "0 \<le> j" and eq: "str_int i = str_int j"
  then have "str_nat (nat i) = str_nat (nat j)" by (simp add: str_int_def)
  then have "decimal_value (str_nat (nat i)) = decimal_value (str_nat (nat j))" by simp
  then have "nat i = nat j" by (simp add: decimal_value_str_nat)
  with i j show "i = j" by simp
qed

lemma final_name_inj: "0 \<le> i \<Longrightarrow> 0 \<le> j \<Longrightarrow> final_name B i = final_name B j \<Longrightarrow> i = j"
  by (auto simp: final_name_def dest: str_int_inj)

section \<open>The rename loop\<close>

lemma alerts_of_append: "alerts_of (xs @ ys) = alerts_of xs @ alerts_of ys"
  by (induction xs rule: alerts_of.induct) simp_all

lemma quiet_alerts: "quiet es \<Longrightarrow> alerts_of es = []"
  by (induction es rule: alerts_of.induct) (auto simp: quiet_def)

lemma quiet_append: "quiet xs \<Longrightarrow> quiet ys \<Longrightarrow> quiet (xs @ ys)"
  by (auto simp: quiet_def)

lemma alerts_of_quiet_then:
  "quiet es \<Longrightarrow> alerts_of (es @ rest) = alerts_of rest"
  by (simp add: alerts_of_append quiet_alerts)

lemma rename_view_accepted:
  assumes "hf (doc h) view n = None" and "trans_saved h = None"
  shows "rename_view hf view n h =
           (Inr (), h\<lparr>doc := set_Name view n (doc h), events := events h @ [TransStart, TransCommit]\<rparr>)"
  using assms
  by (simp add: rename_view_def t_Dispose_def t_Commit_def t_Start_def assign_Name_def log_def)

lemma rename_view_fault:
  assumes "hf (doc h) view n = Some flt" and "trans_saved h = None"
  shows "\<exists>es. quiet es \<and>
           rename_view hf view n h = (Inl (fault_text flt), h\<lparr>events := events h @ es\<rparr>)"
proof (cases flt)
  case (StartRaises e)
  have "quiet [TransStart]" by (simp add: quiet_def)
  moreover have "rename_view hf view n h = (Inl (fault_text flt), h\<lparr>events := events h @ [TransStart]\<rparr>)"
    using assms StartRaises by (simp add: rename_view_def t_Dispose_def log_def)
  ultimately show ?thesis by blast
next
  case (SetterRaises e)
  have "quiet [TransStart]" by (simp add: quiet_def)
  moreover have "rename_view hf view n h = (Inl (fault_text flt), h\<lparr>events := events h @ [TransStart]\<rparr>)"
    using assms SetterRaises by (simp add: rename_view_def t_Dispose_def t_Start_def log_def)
  ultimately show ?thesis by blast
next
  case (CommitRaises e)
  have "quiet [TransStart, TransCommit]" by (simp add: quiet_def)
  moreover have "rename_view hf view n h =
      (Inl (fault_text flt), h\<lparr>events := events h @ [TransStart, TransCommit]\<rparr>)"
    using assms CommitRaises
    by (simp add: rename_view_def t_Dispose_def t_Start_def assign_Name_def log_def)
  ultimately show ?thesis by blast
qed

lemma rename_loop_accepted:
  "renames_accepted hf B vs c (doc h) \<Longrightarrow> trans_saved h = None \<Longrightarrow>
   \<exists>es. quiet es \<and>
     rename_loop hf B vs (rc, c) h =
       (Inr (rc + int (length vs), c + int (length vs)),
        h\<lparr>doc := renamed B vs c (doc h), events := events h @ es\<rparr>)"
proof (induction vs arbitrary: rc c h)
  case Nil
  have "quiet []" by (simp add: quiet_def)
  moreover have "rename_loop hf B [] (rc, c) h = (Inr (rc, c), h\<lparr>doc := doc h, events := events h @ []\<rparr>)"
    by simp
  ultimately show ?case by (metis list.size(3) of_nat_0 add_0_right renamed.simps(1))
next
  case (Cons v vs)
  let ?n = "final_name B c"
  let ?h1 = "h\<lparr>doc := set_Name v ?n (doc h), events := events h @ [TransStart, TransCommit]\<rparr>"
  from Cons.prems have step: "rename_view hf v ?n h = (Inr (), ?h1)"
    by (simp add: rename_view_accepted)
  from Cons.prems have "renames_accepted hf B vs (c + 1) (doc ?h1)" and "trans_saved ?h1 = None"
    by simp_all
  from Cons.IH [OF this, of "rc + 1"] obtain es where
    es: "quiet es" and
    rest: "rename_loop hf B vs (rc + 1, c + 1) ?h1 =
       (Inr (rc + 1 + int (length vs), c + 1 + int (length vs)),
        ?h1\<lparr>doc := renamed B vs (c + 1) (doc ?h1), events := events ?h1 @ es\<rparr>)"
    by blast
  have "quiet ([TransStart, TransCommit] @ es)"
    using es by (simp add: quiet_def)
  moreover have "rename_loop hf B (v # vs) (rc, c) h =
       (Inr (rc + int (length (v # vs)), c + int (length (v # vs))),
        h\<lparr>doc := renamed B (v # vs) c (doc h), events := events h @ ([TransStart, TransCommit] @ es)\<rparr>)"
    using step rest by (simp add: add.assoc add.commute)
  ultimately show ?case by blast
qed

lemma rename_loop_append:
  "rename_loop hf B pre (rc, c) h = (Inr (rc', c'), h1) \<Longrightarrow>
   rename_loop hf B (pre @ post) (rc, c) h = rename_loop hf B post (rc', c') h1"
proof (induction pre arbitrary: rc c h)
  case Nil
  then show ?case by simp
next
  case (Cons v vs)
  then show ?case by (auto split: prod.splits sum.splits)
qed

lemma rename_loop_fault:
  assumes acc: "renames_accepted hf B pre c (doc h)" and ts: "trans_saved h = None"
    and flt: "hf (renamed B pre c (doc h)) view (final_name B (c + int (length pre))) = Some flt"
  shows "\<exists>es. quiet es \<and>
     rename_loop hf B (pre @ view # post) (rc, c) h =
       (Inl SystemExit,
        tg_RollBack (alert (failure_message (get_Name (renamed B pre c (doc h)) view) (fault_text flt))
                       ''Error''
                       (h\<lparr>doc := renamed B pre c (doc h), events := events h @ es\<rparr>)))"
proof -
  from rename_loop_accepted [OF acc ts, of rc] obtain es where
    es: "quiet es" and
    pre: "rename_loop hf B pre (rc, c) h =
       (Inr (rc + int (length pre), c + int (length pre)),
        h\<lparr>doc := renamed B pre c (doc h), events := events h @ es\<rparr>)"
    by blast
  let ?h1 = "h\<lparr>doc := renamed B pre c (doc h), events := events h @ es\<rparr>"
  let ?n = "final_name B (c + int (length pre))"
  have "hf (doc ?h1) view ?n = Some flt" and "trans_saved ?h1 = None"
    using flt ts by simp_all
  from rename_view_fault [of hf ?h1 view ?n flt, OF this] obtain es' where
    es': "quiet es'" and
    step: "rename_view hf view ?n ?h1 = (Inl (fault_text flt), ?h1\<lparr>events := events ?h1 @ es'\<rparr>)"
    by blast
  have "quiet (es @ es')" using es es' by (rule quiet_append)
  moreover have "rename_loop hf B (pre @ view # post) (rc, c) h =
       (Inl SystemExit,
        tg_RollBack (alert (failure_message (get_Name (renamed B pre c (doc h)) view) (fault_text flt))
                       ''Error''
                       (h\<lparr>doc := renamed B pre c (doc h), events := events h @ (es @ es')\<rparr>)))"
    using rename_loop_append [OF pre, of "view # post"] step by simp
  ultimately show ?thesis by blast
qed

lemma first_fault:
  "\<not> renames_accepted hf B vs c d \<Longrightarrow>
   \<exists>pre view post flt. vs = pre @ view # post \<and> renames_accepted hf B pre c d \<and>
      hf (renamed B pre c d) view (final_name B (c + int (length pre))) = Some flt"
proof (induction vs arbitrary: c d)
  case Nil
  then show ?case by simp
next
  case (Cons v vs)
  show ?case
  proof (cases "hf d v (final_name B c)")
    case (Some flt)
    then have "v # vs = [] @ v # vs \<and> renames_accepted hf B [] c d \<and>
      hf (renamed B [] c d) v (final_name B (c + int (length ([]::view_ref list)))) = Some flt"
      by simp
    then show ?thesis by blast
  next
    case None
    with Cons.prems have "\<not> renames_accepted hf B vs (c + 1) (set_Name v (final_name B c) d)"
      by simp
    from Cons.IH [OF this] obtain pre view post flt where
      "vs = pre @ view # post"
      "renames_accepted hf B pre (c + 1) (set_Name v (final_name B c) d)"
      "hf (renamed B pre (c + 1) (set_Name v (final_name B c) d)) view
          (final_name B (c + 1 + int (length pre))) = Some flt"
      by blast
    with None have "v # vs = (v # pre) @ view # post \<and> renames_accepted hf B (v # pre) c d \<and>
      hf (renamed B (v # pre) c d) view (final_name B (c + int (length (v # pre)))) = Some flt"
      by (simp add: ac_simps)
    then show ?thesis by blast
  qed
qed

lemma rename_loop_Inr_accepted:
  assumes "rename_loop hf B vs (rc, c) h = (Inr r, h')" and "trans_saved h = None"
  shows "renames_accepted hf B vs c (doc h)"
proof (rule ccontr)
  assume "\<not> renames_accepted hf B vs c (doc h)"
  from first_fault [OF this] obtain pre view post flt where
    vs: "vs = pre @ view # post" and acc: "renames_accepted hf B pre c (doc h)" and
    flt: "hf (renamed B pre c (doc h)) view (final_name B (c + int (length pre))) = Some flt"
    by blast
  from rename_loop_fault [OF acc assms(2) flt, of post rc] assms(1) vs
  show False by auto
qed

lemma rename_loop_Inr_host:
  assumes "rename_loop hf B vs (rc, c) h = (Inr r, h')" and "trans_saved h = None"
  shows "renames_accepted hf B vs c (doc h) \<and> doc h' = renamed B vs c (doc h) \<and>
         trans_saved h' = None \<and> group_saved h' = group_saved h \<and>
         alerts_of (events h') = alerts_of (events h)"
proof -
  have acc: "renames_accepted hf B vs c (doc h)"
    using assms by (rule rename_loop_Inr_accepted)
  from rename_loop_accepted [OF acc assms(2), of rc] assms(1) obtain es where
    "quiet es" and "h' = h\<lparr>doc := renamed B vs c (doc h), events := events h @ es\<rparr>"
    by auto
  with acc assms(2) show ?thesis by (simp add: alerts_of_append quiet_alerts)
qed

lemma rename_loop_counts:
  "rename_loop hf B vs (rc, c) h = (Inr (rc', c'), h') \<Longrightarrow>
     rc' = rc + int (length vs) \<and> c' = c + int (length vs)"
proof (induction vs arbitrary: rc c h)
  case Nil
  then show ?case by simp
next
  case (Cons v vs)
  then show ?case by (fastforce split: prod.splits sum.splits)
qed

lemma rename_phase_counts:
  assumes "rename_phase hf B fev h = (Inr (renamed_count, counter), h1)"
  shows "renamed_count = int (length fev) \<and> counter = 1 + int (length fev)"
proof -
  from assms obtain h2 where
    "rename_loop hf B (dict_values fev) (0, 1) (tg_Start h) = (Inr (renamed_count, counter), h2)"
    by (auto simp: rename_phase_def split: prod.splits sum.splits)
  from rename_loop_counts [OF this] show ?thesis by (simp add: dict_values_def)
qed

section \<open>Runs of the script\<close>

lemma viewport_loop_host_eq:
  "viewport_loop_host vps fev h = (viewport_loop (doc h) vps fev, h)"
proof (induction vps arbitrary: fev)
  case Nil
  show ?case by simp
next
  case (Cons vp_id rest)
  show ?case
  proof (cases "GetElement (doc h) vp_id")
    case None
    then show ?thesis by (simp add: doc_GetElement_def)
  next
    case (Some el)
    show ?thesis
    proof (cases el)
      case (View n)
      with Some show ?thesis by (simp add: doc_GetElement_def)
    next
      case (Viewport n view_id)
      with Some show ?thesis
        by (cases "GetElement (doc h) view_id") (simp_all add: doc_GetElement_def Cons.IH)
    qed
  qed
qed

lemma sheet_loop_host_eq:
  "sheet_loop_host ss fev h = (sheet_loop (doc h) ss fev, h)"
proof (induction ss arbitrary: fev)
  case Nil
  show ?case by simp
next
  case (Cons sheet rest)
  show ?case
    by (cases "viewport_loop (doc h) sheet fev")
      (simp_all add: GetAllViewports_def viewport_loop_host_eq Cons.IH)
qed

lemma discovery_phase_eq: "discovery_phase h = (discovery (doc h), h)"
  by (simp add: discovery_phase_def collect_sheets_def sheet_loop_host_eq discovery_def)

lemma doc_start_host: "doc (start_host d) = d"
  by (simp add: start_host_def)

lemma run_rename:
  "discovery d = Inr fev \<Longrightarrow> fev \<noteq> [] \<Longrightarrow> B \<noteq> [] \<Longrightarrow>
   run hf (Some B) d =
     (case rename_phase hf B fev (log AskForString (start_host d)) of
        (Inl s, h2) \<Rightarrow> (Inl s, h2)
      | (Inr (renamed_count, counter), h2) \<Rightarrow> (Inr (), final_report renamed_count h2))"
  by (simp add: run_def discovery_phase_eq doc_start_host Let_def)

lemma run_unhandled:
  "discovery d = Inl e \<Longrightarrow> run hf reply d = (Inl (Unhandled e), start_host d)"
  by (simp add: run_def discovery_phase_eq start_host_def)

lemma run_empty:
  "discovery d = Inr [] \<Longrightarrow>
   run hf reply d =
     (Inl SystemExit,
      \<lparr>doc = d, group_saved = None, trans_saved = None,
       events = [Alert ''No 'Framing Elevation' views were found on any sheets.''
                       ''No Views Found'']\<rparr>)"
  by (simp add: run_def discovery_phase_eq start_host_def alert_def log_def)

lemma run_cancelled:
  "discovery d = Inr fev \<Longrightarrow> fev \<noteq> [] \<Longrightarrow> reply = None \<or> reply = Some [] \<Longrightarrow>
   run hf reply d =
     (Inl SystemExit,
      \<lparr>doc = d, group_saved = None, trans_saved = None,
       events = [AskForString,
                 Alert ''Operation cancelled. No views were renamed.'' ''Cancelled'']\<rparr>)"
  by (auto simp: run_def discovery_phase_eq start_host_def cancelled_def alert_def log_def)

lemma run_accepted:
  assumes disc: "discovery d = Inr fev" and ne: "fev \<noteq> []" and B: "B \<noteq> []"
    and acc: "renames_accepted hf B (dict_values fev) 1 d"
  shows "\<exists>es. quiet es \<and>
     run hf (Some B) d =
       (Inr (),
        \<lparr>doc = renamed B (dict_values fev) 1 d, group_saved = None, trans_saved = None,
         events = [AskForString, GroupStart] @ es @
                  [GroupAssimilate,
                   Alert (success_message (int (length fev))) ''Process Complete'']\<rparr>)"
proof -
  let ?h = "tg_Start (log AskForString (start_host d))"
  have h: "?h = \<lparr>doc = d, group_saved = Some d, trans_saved = None,
                 events = [AskForString, GroupStart]\<rparr>"
    by (simp add: tg_Start_def log_def start_host_def)
  have "renames_accepted hf B (dict_values fev) 1 (doc ?h)" and "trans_saved ?h = None"
    using acc by (simp_all add: h)
  from rename_loop_accepted [OF this, of 0] obtain es where
    es: "quiet es" and
    loop: "rename_loop hf B (dict_values fev) (0, 1) ?h =
       (Inr (0 + int (length (dict_values fev)), 1 + int (length (dict_values fev))),
        ?h\<lparr>doc := renamed B (dict_values fev) 1 (doc ?h), events := events ?h @ es\<rparr>)"
    by blast
  have len: "length (dict_values fev) = length fev" by (simp add: dict_values_def)
  have pos: "0 < int (length fev)" using ne by simp
  have phase: "rename_phase hf B fev (log AskForString (start_host d)) =
      (Inr (int (length fev), 1 + int (length fev)),
       \<lparr>doc = renamed B (dict_values fev) 1 d, group_saved = None, trans_saved = None,
        events = [AskForString, GroupStart] @ es @ [GroupAssimilate]\<rparr>)"
  proof -
    have "rename_phase hf B fev (log AskForString (start_host d)) =
      (Inr (0 + int (length (dict_values fev)), 1 + int (length (dict_values fev))),
       tg_Dispose (tg_Assimilate
         (?h\<lparr>doc := renamed B (dict_values fev) 1 (doc ?h), events := events ?h @ es\<rparr>)))"
      by (simp only: rename_phase_def loop prod.case sum.case)
    then show ?thesis
      unfolding h by (simp add: len tg_Dispose_def tg_Assimilate_def log_def)
  qed
  have "run hf (Some B) d =
       (Inr (), final_report (int (length fev))
          \<lparr>doc = renamed B (dict_values fev) 1 d, group_saved = None, trans_saved = None,
           events = [AskForString, GroupStart] @ es @ [GroupAssimilate]\<rparr>)"
    by (simp only: run_rename [OF disc ne B] phase prod.case sum.case)
  then have "run hf (Some B) d =
       (Inr (),
        \<lparr>doc = renamed B (dict_values fev) 1 d, group_saved = None, trans_saved = None,
         events = [AskForString, GroupStart] @ es @
                  [GroupAssimilate,
                   Alert (success_message (int (length fev))) ''Process Complete'']\<rparr>)"
    using pos by (simp add: final_report_def alert_def log_def)
  with es show ?thesis by blast
qed

lemma run_fault:
  assumes disc: "discovery d = Inr fev" and B: "B \<noteq> []"
    and vs: "dict_values fev = pre @ view # post"
    and acc: "renames_accepted hf B pre 1 d"
    and flt: "hf (renamed B pre 1 d) view (final_name B (1 + int (length pre))) = Some flt"
  shows "\<exists>es. quiet es \<and>
     run hf (Some B) d =
       (Inl SystemExit,
        \<lparr>doc = d, group_saved = None, trans_saved = None,
         events = [AskForString, GroupStart] @ es @
                  [Alert (failure_message (get_Name (renamed B pre 1 d) view) (fault_text flt))
                         ''Error'',
                   GroupRollBack]\<rparr>)"
proof -
  let ?h = "tg_Start (log AskForString (start_host d))"
  have h: "?h = \<lparr>doc = d, group_saved = Some d, trans_saved = None,
                 events = [AskForString, GroupStart]\<rparr>"
    by (simp add: tg_Start_def log_def start_host_def)
  have "renames_accepted hf B pre 1 (doc ?h)" and "trans_saved ?h = None"
    and "hf (renamed B pre 1 (doc ?h)) view (final_name B (1 + int (length pre))) = Some flt"
    using acc flt by (simp_all add: h)
  from rename_loop_fault [OF this, of post 0] obtain es where
    es: "quiet es" and
    loop: "rename_loop hf B (pre @ view # post) (0, 1) ?h =
       (Inl SystemExit,
        tg_RollBack (alert (failure_message (get_Name (renamed B pre 1 (doc ?h)) view) (fault_text flt))
                       ''Error''
                       (?h\<lparr>doc := renamed B pre 1 (doc ?h), events := events ?h @ es\<rparr>)))"
    by blast
  have ne: "fev \<noteq> []" using vs by (auto simp: dict_values_def)
  have phase: "rename_phase hf B fev (log AskForString (start_host d)) =
      (Inl SystemExit,
        \<lparr>doc = d, group_saved = None, trans_saved = None,
         events = [AskForString, GroupStart] @ es @
                  [Alert (failure_message (get_Name (renamed B pre 1 d) view) (fault_text flt))
                         ''Error'',
                   GroupRollBack]\<rparr>)"
  proof -
    have "rename_phase hf B fev (log AskForString (start_host d)) =
      (Inl SystemExit,
       tg_Dispose (tg_RollBack
         (alert (failure_message (get_Name (renamed B pre 1 (doc ?h)) view) (fault_text flt))
            ''Error''
            (?h\<lparr>doc := renamed B pre 1 (doc ?h), events := events ?h @ es\<rparr>))))"
      by (simp only: rename_phase_def vs loop prod.case sum.case)
    then show ?thesis
      unfolding h by (simp add: tg_Dispose_def tg_RollBack_def alert_def log_def)
  qed
  have "run hf (Some B) d =
       (Inl SystemExit,
        \<lparr>doc = d, group_saved = None, trans_saved = None,
         events = [AskForString, GroupStart] @ es @
                  [Alert (failure_message (get_Name (renamed B pre 1 d) view) (fault_text flt))
                         ''Error'',
                   GroupRollBack]\<rparr>)"
    by (simp only: run_rename [OF disc ne B] phase prod.case sum.case)
  with es show ?thesis by blast
qed

lemma run_accepted_alerts:
  assumes "discovery d = Inr fev" and "fev \<noteq> []" and "B \<noteq> []"
    and "renames_accepted hf B (dict_values fev) 1 d"
  shows "fst (run hf (Some B) d) = Inr () \<and>
         doc (snd (run hf (Some B) d)) = renamed B (dict_values fev) 1 d \<and>
         alerts_of (events (snd (run hf (Some B) d))) =
           [(success_message (int (length fev)), ''Process Complete'')]"
proof -
  from run_accepted [OF assms] obtain es where "quiet es" and
    "run hf (Some B) d =
       (Inr (),
        \<lparr>doc = renamed B (dict_values fev) 1 d, group_saved = None, trans_saved = None,
         events = [AskForString, GroupStart] @ es @
                  [GroupAssimilate,
                   Alert (success_message (int (length fev))) ''Process Complete'']\<rparr>)"
    by blast
  then show ?thesis by (simp add: alerts_of_quiet_then)
qed

lemma run_fault_alerts:
  assumes disc: "discovery d = Inr fev" and B: "B \<noteq> []"
    and vs: "dict_values fev = pre @ view # post"
    and acc: "renames_accepted hf B pre 1 d"
    and flt: "hf (renamed B pre 1 d) view (final_name B (1 + int (length pre))) = Some flt"
  shows "fst (run hf (Some B) d) = Inl SystemExit \<and>
         doc (snd (run hf (Some B) d)) = d \<and>
         group_saved (snd (run hf (Some B) d)) = None \<and>
         trans_saved (snd (run hf (Some B) d)) = None \<and>
         alerts_of (events (snd (run hf (Some B) d))) =
           [(failure_message (get_Name d view) (fault_text flt), ''Error'')] \<and>
         get_Name d view = ''Framing Elevation''"
proof -
  from run_fault [OF assms] obtain es where es: "quiet es" and
    r: "run hf (Some B) d =
       (Inl SystemExit,
        \<lparr>doc = d, group_saved = None, trans_saved = None,
         events = [AskForString, GroupStart] @ es @
                  [Alert (failure_message (get_Name (renamed B pre 1 d) view) (fault_text flt))
                         ''Error'',
                   GroupRollBack]\<rparr>)"
    by blast
  from discovery_values_resolve [OF disc] vs have "view \<notin> set pre"
    and name: "get_Name d view = ''Framing Elevation''"
    by simp_all
  then have "get_Name (renamed B pre 1 d) view = get_Name d view"
    by (simp add: get_Name_renamed_other)
  with r es name show ?thesis by (simp add: alerts_of_quiet_then)
qed

lemma run_rejected_alerts:
  assumes disc: "discovery d = Inr fev" and B: "B \<noteq> []"
    and rej: "\<not> renames_accepted hf B (dict_values fev) 1 d"
  shows "\<exists>e. fst (run hf (Some B) d) = Inl SystemExit \<and>
         alerts_of (events (snd (run hf (Some B) d))) =
           [(failure_message ''Framing Elevation'' e, ''Error'')]"
proof -
  from first_fault [OF rej] obtain pre view post flt where
    "dict_values fev = pre @ view # post" "renames_accepted hf B pre 1 d"
    "hf (renamed B pre 1 d) view (final_name B (1 + int (length pre))) = Some flt"
    by blast
  from run_fault_alerts [OF disc B this] show ?thesis by auto
qed

lemma run_completes_iff:
  assumes disc: "discovery d = Inr fev"
  shows "fst (run hf reply d) = Inr () \<longleftrightarrow>
     (\<exists>B. reply = Some B \<and> B \<noteq> [] \<and> fev \<noteq> [] \<and> renames_accepted hf B (dict_values fev) 1 d)"
proof (cases "fev = []")
  case True
  with disc show ?thesis by (simp add: run_empty)
next
  case ne: False
  show ?thesis
  proof (cases "reply = None \<or> reply = Some []")
    case True
    from run_cancelled [OF disc ne True, of hf] True show ?thesis by auto
  next
    case False
    then obtain B where reply: "reply = Some B" and B: "B \<noteq> []" by auto
    show ?thesis
    proof (cases "renames_accepted hf B (dict_values fev) 1 d")
      case True
      from run_accepted_alerts [OF disc ne B True] reply ne B True show ?thesis by simp
    next
      case False
      from run_rejected_alerts [OF disc B False] reply False show ?thesis by auto
    qed
  qed
qed

lemma run_one_alert:
  assumes disc: "discovery d = Inr fev"
  shows "\<exists>msg title. alerts_of (events (snd (run hf reply d))) = [(msg, title)] \<and>
           title \<in> set terminal_titles \<and>
           (msg, title) \<noteq> (''No views were renamed.'', ''Process Complete'') \<and>
           (fst (run hf reply d) = Inl SystemExit \<or> fst (run hf reply d) = Inr ()) \<and>
           (fst (run hf reply d) = Inr () \<longrightarrow>
              msg = success_message (int (length fev)) \<and> title = ''Process Complete'' \<and> fev \<noteq> [])"
proof (cases "fev = []")
  case True
  with disc show ?thesis by (simp add: run_empty terminal_titles_def)
next
  case ne: False
  show ?thesis
  proof (cases "reply = None \<or> reply = Some []")
    case True
    from run_cancelled [OF disc ne True] show ?thesis by (simp add: terminal_titles_def)
  next
    case False
    then obtain B where reply: "reply = Some B" and B: "B \<noteq> []" by auto
    show ?thesis
    proof (cases "renames_accepted hf B (dict_values fev) 1 d")
      case True
      from run_accepted_alerts [OF disc ne B True] reply ne show ?thesis
        by (simp add: terminal_titles_def success_message_def)
    next
      case False
      from run_rejected_alerts [OF disc B False] reply show ?thesis
        by (auto simp: terminal_titles_def)
    qed
  qed
qed

section \<open>The properties of a run\<close>



text \<open>
  C2.  When the mapping is not empty, the prompt returns a non-empty base name \<open>B\<close> and
  the host accepts every rename, the run reaches its end and the view at position \<open>i\<close>
  (from 0) of the mapping's values is named \<open>B\<close>, `` - '' and the decimal numeral of
  \<open>i + 1\<close>: digits only, no leading zero, reading back as \<open>i + 1\<close>.  The new names are
  pairwise different and every other element of the document is as it was.
\<close>

theorem naming_sequence:
  assumes "discovery d = Inr fev" and "fev \<noteq> []" and "B \<noteq> []"
    and "renames_accepted hf B (dict_values fev) 1 d"
  shows "fst (run hf (Some B) d) = Inr () \<and>
         (\<forall>i < length fev.
            get_Name (doc (snd (run hf (Some B) d))) (dict_values fev ! i) =
              B @ '' - '' @ str_int (1 + int i) \<and>
            str_int (1 + int i) \<noteq> [] \<and>
            set (str_int (1 + int i)) \<subseteq> set ''0123456789'' \<and>
            hd (str_int (1 + int i)) \<noteq> CHR ''0'' \<and>
            decimal_value (str_int (1 + int i)) = i + 1) \<and>
         distinct (map (get_Name (doc (snd (run hf (Some B) d)))) (dict_values fev)) \<and>
         (\<forall>u. u \<notin> set (dict_values fev) \<longrightarrow>
            GetElement (doc (snd (run hf (Some B) d))) u = GetElement d u)"
proof -
  let ?vs = "dict_values fev"
  let ?d = "doc (snd (run hf (Some B) d))"
  note r = run_accepted_alerts [OF assms]
  then have d': "?d = renamed B ?vs 1 d" by simp
  note vs = discovery_values_resolve [OF assms(1)]
  then have dist: "distinct ?vs" and res: "\<forall>v \<in> set ?vs. elements d v \<noteq> None"
    by simp_all
  have len: "length ?vs = length fev" by (simp add: dict_values_def)
  have nth: "get_Name ?d (?vs ! i) = final_name B (1 + int i)" if "i < length fev" for i
    using that get_Name_renamed_nth [OF dist res, of i B 1] by (simp add: d' len)
  have dec: "str_int (1 + int i) \<noteq> [] \<and> set (str_int (1 + int i)) \<subseteq> set ''0123456789'' \<and>
      hd (str_int (1 + int i)) \<noteq> CHR ''0'' \<and> decimal_value (str_int (1 + int i)) = i + 1" for i
  proof -
    have "str_int (1 + int i) = str_nat (Suc i)"
      by (simp add: str_int_def nat_add_distrib)
    with str_nat_nonempty [of "Suc i"] str_nat_digits [of "Suc i"]
      str_nat_no_leading_zero [of "Suc i"] decimal_value_str_nat [of "Suc i"]
    show ?thesis by simp
  qed
  have "map (get_Name ?d) ?vs = map (\<lambda>i. final_name B (1 + int i)) [0..<length fev]"
    by (rule nth_equalityI) (simp_all add: len nth)
  moreover have "x = y" if "final_name B (1 + int x) = final_name B (1 + int y)" for x y :: nat
    using final_name_inj [OF _ _ that] by simp
  then have "distinct (map (\<lambda>i. final_name B (1 + int i)) [0..<length fev])"
    by (auto simp: distinct_map inj_on_def)
  ultimately have names: "distinct (map (get_Name ?d) ?vs)" by simp
  have rest: "GetElement ?d u = GetElement d u" if "u \<notin> set ?vs" for u
    using get_Name_renamed_rest [OF res that, of B 1] by (simp add: d' GetElement_def)
  from r nth dec names rest show ?thesis by (simp add: final_name_def)
qed

theorem naming_sequence_witness:
  "fst (run no_faults (Some ''Old FE'') scenario) = Inr () \<and>
   get_Name (doc (snd (run no_faults (Some ''Old FE'') scenario))) 10 = ''Old FE - 1'' \<and>
   get_Name (doc (snd (run no_faults (Some ''Old FE'') scenario))) 11 = ''Old FE - 2''"
proof -
  have a: "[(10, 10), (11, 11)] \<noteq> ([] :: dict)" by simp
  have b: "''Old FE'' \<noteq> []" by simp
  have c: "renames_accepted no_faults ''Old FE'' (dict_values [(10, 10), (11, 11)]) 1 scenario"
    by (simp add: no_faults_def dict_values_def)
  have s1: "str_int 1 = ''1''" by (simp add: str_int_def str_nat.simps digit_char_def)
  have s2: "str_int 2 = ''2''" by (simp add: str_int_def str_nat.simps digit_char_def)
  note t = naming_sequence [OF discovery_scenario a b c]
  from t have "fst (run no_faults (Some ''Old FE'') scenario) = Inr ()" by simp
  moreover from t have q:
    "\<forall>i < 2. get_Name (doc (snd (run no_faults (Some ''Old FE'') scenario)))
        (dict_values [(10, 10), (11, 11)] ! i) = ''Old FE'' @ '' - '' @ str_int (1 + int i)"
    by simp
  have "get_Name (doc (snd (run no_faults (Some ''Old FE'') scenario))) 10 = ''Old FE - 1'' \<and>
     get_Name (doc (snd (run no_faults (Some ''Old FE'') scenario))) 11 = ''Old FE - 2''"
    using q [THEN spec, of 0] q [THEN spec, of 1] s1 s2 by (simp add: dict_values_def)
  ultimately show ?thesis by simp
qed

text \<open>
  C5.  When Discovery returns the empty mapping, the run ends by \<^verbatim>\<open>script.exit()\<close>
  with the document unchanged, no transaction state saved, and a trace that consists of
  the ``No Views Found'' alert alone: no prompt and no transaction call.
\<close>

theorem empty_guard:
  assumes "discovery d = Inr []"
  shows "run hf reply d =
     (Inl SystemExit,
      \<lparr>doc = d, group_saved = None, trans_saved = None,
       events = [Alert ''No 'Framing Elevation' views were found on any sheets.''
                       ''No Views Found'']\<rparr>)"
  using assms by (rule run_empty)

theorem empty_guard_witness:
  "discovery plans_only = Inr [] \<and>
   run no_faults (Some ''Old FE'') plans_only =
     (Inl SystemExit,
      \<lparr>doc = plans_only, group_saved = None, trans_saved = None,
       events = [Alert ''No 'Framing Elevation' views were found on any sheets.''
                       ''No Views Found'']\<rparr>)"
proof -
  have a: "discovery plans_only = Inr []"
    by (simp add: discovery_def plans_only_def GetElement_def InvalidElementId_def dict_keys_def)
  from empty_guard [OF a] a show ?thesis by simp
qed

text \<open>
  C6.  When the mapping is not empty and the prompt is cancelled or returns the empty
  string, the run ends by \<^verbatim>\<open>script.exit()\<close> with the document unchanged, no
  transaction state saved, and a trace that consists of the prompt and the ``Cancelled''
  alert: no transaction call.
\<close>

theorem cancellation:
  assumes "discovery d = Inr fev" and "fev \<noteq> []" and "reply = None \<or> reply = Some []"
  shows "run hf reply d =
     (Inl SystemExit,
      \<lparr>doc = d, group_saved = None, trans_saved = None,
       events = [AskForString,
                 Alert ''Operation cancelled. No views were renamed.'' ''Cancelled'']\<rparr>)"
  using assms by (rule run_cancelled)

theorem cancellation_witness:
  "run scenario_faults None scenario =
     (Inl SystemExit,
      \<lparr>doc = scenario, group_saved = None, trans_saved = None,
       events = [AskForString,
                 Alert ''Operation cancelled. No views were renamed.'' ''Cancelled'']\<rparr>) \<and>
   run scenario_faults (Some []) scenario = run scenario_faults None scenario"
proof -
  have a: "[(10, 10), (11, 11)] \<noteq> ([] :: dict)" by simp
  have b: "None = None \<or> None = Some ''''" by simp
  have c: "Some [] = None \<or> Some [] = Some ''''" by simp
  from cancellation [OF discovery_scenario a b, of scenario_faults]
    cancellation [OF discovery_scenario a c, of scenario_faults]
  show ?thesis by simp
qed

text \<open>
  C7.  The Discovery phase, run against any state of the host, hands back the state it
  was given: it changes neither the document nor anything else of the host, and it shows
  no dialog and opens no transaction.  Run a second time, on the state the first run
  leaves, it returns the identical mapping, the same keys and references in the same
  order, and leaves the state as it is again.  The mapping is \<open>discovery\<close> of the
  document alone.
\<close>

theorem discovery_read_only_deterministic:
  "snd (discovery_phase h) = h \<and>
   discovery_phase (snd (discovery_phase h)) = discovery_phase h \<and>
   fst (discovery_phase h) = discovery (doc h)"
  by (simp add: discovery_phase_eq)

theorem discovery_read_only_deterministic_witness:
  "discovery_phase (start_host scenario) = (Inr [(10, 10), (11, 11)], start_host scenario) \<and>
   discovery_phase (snd (discovery_phase (start_host scenario))) =
     (Inr [(10, 10), (11, 11)], start_host scenario)"
  using discovery_read_only_deterministic [of "start_host scenario"] discovery_scenario
  by (simp add: prod_eq_iff doc_start_host)



text \<open>
  C9.  No run shows the alert ``No views were renamed.''.  Whenever the rename phase
  returns normally on a non-empty mapping, \<open>renamed_count\<close> is positive and the final
  report is the success alert; and a run that reaches its end has shown exactly the
  success alert, with a positive count.
\<close>

theorem no_views_renamed_unreachable:
  "(''No views were renamed.'', ''Process Complete'')
      \<notin> set (alerts_of (events (snd (run hf reply d)))) \<and>
   (\<forall>fev B h renamed_count counter h1.
      fev \<noteq> [] \<and> rename_phase hf B fev h = (Inr (renamed_count, counter), h1) \<longrightarrow>
      0 < renamed_count \<and>
      final_report renamed_count h1 =
        alert (success_message renamed_count) ''Process Complete'' h1) \<and>
   (fst (run hf reply d) = Inr () \<longrightarrow>
      (\<exists>n > 0. alerts_of (events (snd (run hf reply d))) =
                 [(success_message n, ''Process Complete'')]))"
proof -
  have a: "(''No views were renamed.'', ''Process Complete'')
      \<notin> set (alerts_of (events (snd (run hf reply d))))"
  proof (cases "discovery d")
    case (Inl e)
    then show ?thesis by (simp add: run_unhandled start_host_def)
  next
    case (Inr fev)
    from run_one_alert [OF this, of hf reply] show ?thesis by auto
  qed
  have b: "0 < renamed_count \<and>
      final_report renamed_count h1 =
        alert (success_message renamed_count) ''Process Complete'' h1"
    if "fev \<noteq> []" and "rename_phase hf B fev h = (Inr (renamed_count, counter), h1)"
    for fev B h renamed_count counter h1
    using rename_phase_counts [OF that(2)] that(1) by (simp add: final_report_def)
  have c: "\<exists>n > 0. alerts_of (events (snd (run hf reply d))) =
                 [(success_message n, ''Process Complete'')]"
    if completed: "fst (run hf reply d) = Inr ()"
  proof (cases "discovery d")
    case (Inl e)
    with completed show ?thesis by (simp add: run_unhandled)
  next
    case (Inr fev)
    from run_one_alert [OF this, of hf reply] completed
    have "alerts_of (events (snd (run hf reply d))) =
        [(success_message (int (length fev)), ''Process Complete'')]" and "fev \<noteq> []"
      by auto
    then have "0 < int (length fev) \<and> alerts_of (events (snd (run hf reply d))) =
        [(success_message (int (length fev)), ''Process Complete'')]"
      by simp
    then show ?thesis by blast
  qed
  from a b c show ?thesis by blast
qed

theorem no_views_renamed_unreachable_witness:
  "fst (run no_faults (Some ''Old FE'') scenario) = Inr () \<and>
   (''No views were renamed.'', ''Process Complete'')
      \<notin> set (alerts_of (events (snd (run no_faults (Some ''Old FE'') scenario)))) \<and>
   (\<exists>n > 0. alerts_of (events (snd (run no_faults (Some ''Old FE'') scenario))) =
              [(success_message n, ''Process Complete'')])"
proof -
  have a: "[(10, 10), (11, 11)] \<noteq> ([] :: dict)" by simp
  have b: "''Old FE'' \<noteq> []" by simp
  have c: "renames_accepted no_faults ''Old FE'' (dict_values [(10, 10), (11, 11)]) 1 scenario"
    by (simp add: no_faults_def dict_values_def)
  from run_accepted_alerts [OF discovery_scenario a b c]
  have completed: "fst (run no_faults (Some ''Old FE'') scenario) = Inr ()" by simp
  from no_views_renamed_unreachable [of no_faults "Some ''Old FE''" scenario] completed
  show ?thesis by simp
qed

text \<open>
  C10.  At every iteration boundary of the rename loop of a run, that is after the loop
  has gone through any initial part \<open>pre\<close> of the mapping's values and not exited,
  \<open>renamed_count = counter - 1\<close>, \<open>renamed_count\<close> is the number of views handled and the
  host has accepted the rename of each of them; the loop goes on from that state.  If
  the host accepts the rename of the next view both numbers go up by one; if it raises,
  nothing more is counted and the loop and the run exit.  When nothing remains,
  \<open>renamed_count\<close> is the number of entries of the mapping, the run reaches its end and
  the one alert is ``Successfully renamed \<open>n\<close> view(s).'' with \<open>n\<close> the decimal
  numeral of \<open>renamed_count\<close>.
\<close>

theorem renamed_count_invariant:
  assumes "discovery d = Inr fev" and "fev \<noteq> []" and "B \<noteq> []"
    and "dict_values fev = pre @ post"
    and "rename_loop hf B pre (0, 1) (tg_Start (log AskForString (start_host d))) =
           (Inr (renamed_count, counter), h1)"
  shows "renamed_count = counter - 1 \<and> renamed_count = int (length pre) \<and>
         renames_accepted hf B pre 1 d \<and> doc h1 = renamed B pre 1 d \<and>
         rename_loop hf B (dict_values fev) (0, 1) (tg_Start (log AskForString (start_host d))) =
           rename_loop hf B post (renamed_count, counter) h1 \<and>
         (\<forall>view rest. post = view # rest \<longrightarrow>
            (hf (doc h1) view (final_name B counter) = None \<longrightarrow>
               (\<exists>h2. rename_loop hf B (pre @ [view]) (0, 1)
                        (tg_Start (log AskForString (start_host d))) =
                      (Inr (renamed_count + 1, counter + 1), h2))) \<and>
            (hf (doc h1) view (final_name B counter) \<noteq> None \<longrightarrow>
               fst (rename_loop hf B (pre @ [view]) (0, 1)
                     (tg_Start (log AskForString (start_host d)))) = Inl SystemExit \<and>
               fst (run hf (Some B) d) = Inl SystemExit)) \<and>
         (post = [] \<longrightarrow>
            renamed_count = int (length fev) \<and>
            fst (run hf (Some B) d) = Inr () \<and>
            alerts_of (events (snd (run hf (Some B) d))) =
              [(''Successfully renamed '' @ str_int renamed_count @ '' view(s).'',
                ''Process Complete'')] \<and>
            set (str_int renamed_count) \<subseteq> set ''0123456789'' \<and>
            hd (str_int renamed_count) \<noteq> CHR ''0'' \<and>
            decimal_value (str_int renamed_count) = length fev)"
proof -
  let ?h = "tg_Start (log AskForString (start_host d))"
  have h: "trans_saved ?h = None" "doc ?h = d"
    by (simp_all add: tg_Start_def log_def start_host_def)
  from rename_loop_counts [OF assms(5)] have
    counts: "renamed_count = int (length pre)" "counter = 1 + int (length pre)"
    by simp_all
  from rename_loop_Inr_host [OF assms(5) h(1)] have
    acc: "renames_accepted hf B pre 1 d" and d1: "doc h1 = renamed B pre 1 d"
    and t1: "trans_saved h1 = None"
    by (simp_all add: h(2))
  have cont: "rename_loop hf B (dict_values fev) (0, 1) ?h =
      rename_loop hf B post (renamed_count, counter) h1"
    unfolding assms(4) using assms(5) by (rule rename_loop_append)
  have step_ok: "\<exists>h2. rename_loop hf B (pre @ [view]) (0, 1) ?h =
                      (Inr (renamed_count + 1, counter + 1), h2)"
    if "hf (doc h1) view (final_name B counter) = None" for view
  proof -
    have "rename_loop hf B (pre @ [view]) (0, 1) ?h =
        rename_loop hf B [view] (renamed_count, counter) h1"
      using assms(5) by (rule rename_loop_append)
    with rename_view_accepted [of hf h1 view "final_name B counter", OF that t1] show ?thesis by simp
  qed
  have step_fault: "fst (rename_loop hf B (pre @ [view]) (0, 1) ?h) = Inl SystemExit \<and>
               fst (run hf (Some B) d) = Inl SystemExit"
    if post: "post = view # rest" and no: "hf (doc h1) view (final_name B counter) \<noteq> None"
    for view rest
  proof -
    from no obtain flt where flt: "hf (doc h1) view (final_name B counter) = Some flt" by auto
    have "rename_loop hf B (pre @ [view]) (0, 1) ?h =
        rename_loop hf B [view] (renamed_count, counter) h1"
      using assms(5) by (rule rename_loop_append)
    moreover from rename_view_fault [of hf h1 view "final_name B counter" flt, OF flt t1] obtain es where
      "rename_view hf view (final_name B counter) h1 =
         (Inl (fault_text flt), h1\<lparr>events := events h1 @ es\<rparr>)"
      by blast
    ultimately have one: "fst (rename_loop hf B (pre @ [view]) (0, 1) ?h) = Inl SystemExit"
      by simp
    from flt have "hf (renamed B pre 1 d) view (final_name B (1 + int (length pre))) = Some flt"
      by (simp add: d1 counts)
    from run_fault_alerts [OF assms(1,3) _ acc this, of rest] assms(4) post one
    show ?thesis by simp
  qed
  have fin: "renamed_count = int (length fev) \<and>
            fst (run hf (Some B) d) = Inr () \<and>
            alerts_of (events (snd (run hf (Some B) d))) =
              [(''Successfully renamed '' @ str_int renamed_count @ '' view(s).'',
                ''Process Complete'')] \<and>
            set (str_int renamed_count) \<subseteq> set ''0123456789'' \<and>
            hd (str_int renamed_count) \<noteq> CHR ''0'' \<and>
            decimal_value (str_int renamed_count) = length fev" if "post = []"
  proof -
    from that assms(4) have all: "pre = dict_values fev" by simp
    then have len: "renamed_count = int (length fev)"
      using counts(1) by (simp add: dict_values_def)
    from acc all have "renames_accepted hf B (dict_values fev) 1 d" by simp
    note r = run_accepted_alerts [OF assms(1,2,3) this]
    have s: "str_int renamed_count = str_nat (length fev)"
      by (simp add: len str_int_def)
    have pos: "0 < length fev" using assms(2) by simp
    from r len s str_nat_digits [of "length fev"] str_nat_no_leading_zero [OF pos]
      decimal_value_str_nat [of "length fev"]
    show ?thesis by (simp add: success_message_def)
  qed
  from counts have c1: "renamed_count = counter - 1" by simp
  have steps: "\<forall>view rest. post = view # rest \<longrightarrow>
            (hf (doc h1) view (final_name B counter) = None \<longrightarrow>
               (\<exists>h2. rename_loop hf B (pre @ [view]) (0, 1) ?h =
                      (Inr (renamed_count + 1, counter + 1), h2))) \<and>
            (hf (doc h1) view (final_name B counter) \<noteq> None \<longrightarrow>
               fst (rename_loop hf B (pre @ [view]) (0, 1) ?h) = Inl SystemExit \<and>
               fst (run hf (Some B) d) = Inl SystemExit)"
    using step_ok step_fault by blast
  from fin have fin': "post = [] \<longrightarrow>
            renamed_count = int (length fev) \<and>
            fst (run hf (Some B) d) = Inr () \<and>
            alerts_of (events (snd (run hf (Some B) d))) =
              [(''Successfully renamed '' @ str_int renamed_count @ '' view(s).'',
                ''Process Complete'')] \<and>
            set (str_int renamed_count) \<subseteq> set ''0123456789'' \<and>
            hd (str_int renamed_count) \<noteq> CHR ''0'' \<and>
            decimal_value (str_int renamed_count) = length fev"
    by (rule impI)
  from c1 counts(1) acc d1 cont steps fin' show ?thesis
    by (intro conjI)
qed

theorem renamed_count_invariant_witness:
  "(\<exists>h1. rename_loop no_faults ''Old FE'' [10, 11] (0, 1)
           (tg_Start (log AskForString (start_host scenario))) = (Inr (2, 3), h1)) \<and>
   (2::int) = 3 - 1 \<and>
   renames_accepted no_faults ''Old FE'' [10, 11] 1 scenario \<and>
   alerts_of (events (snd (run no_faults (Some ''Old FE'') scenario))) =
     [(''Successfully renamed 2 view(s).'', ''Process Complete'')] \<and>
   (\<exists>h1. rename_loop scenario_faults ''Old FE'' [10] (0, 1)
           (tg_Start (log AskForString (start_host scenario))) = (Inr (1, 2), h1) \<and>
         scenario_faults (doc h1) 11 (final_name ''Old FE'' 2) \<noteq> None) \<and>
   fst (rename_loop scenario_faults ''Old FE'' [10, 11] (0, 1)
         (tg_Start (log AskForString (start_host scenario)))) = Inl SystemExit"
proof -
  let ?h = "tg_Start (log AskForString (start_host scenario))"
  have m: "str_int 2 = ''2''"
    by (simp add: str_int_def str_nat.simps digit_char_def)
  have a: "[(10, 10), (11, 11)] \<noteq> ([] :: dict)" by simp
  have b: "''Old FE'' \<noteq> []" by simp
  have c: "dict_values [(10, 10), (11, 11)] = [10, 11] @ []" by (simp add: dict_values_def)
  have c': "dict_values [(10, 10), (11, 11)] = [10] @ [11]" by (simp add: dict_values_def)
  have ts: "trans_saved ?h = None"
    by (simp add: tg_Start_def log_def start_host_def)
  have "renames_accepted no_faults ''Old FE'' [10, 11] 1 (doc ?h)"
    by (simp add: no_faults_def tg_Start_def log_def start_host_def)
  from rename_loop_accepted [OF this ts, of 0] obtain h1 where
    loop: "rename_loop no_faults ''Old FE'' [10, 11] (0, 1) ?h = (Inr (2, 3), h1)"
    by auto
  have "renames_accepted scenario_faults ''Old FE'' [10] 1 (doc ?h)"
    by (simp add: scenario_faults_def tg_Start_def log_def start_host_def)
  from rename_loop_accepted [OF this ts, of 0] obtain h2 where
    loop': "rename_loop scenario_faults ''Old FE'' [10] (0, 1) ?h = (Inr (1, 2), h2)"
    by auto
  have f: "scenario_faults (doc h2) 11 (final_name ''Old FE'' 2) \<noteq> None"
    by (simp add: scenario_faults_def)
  from renamed_count_invariant [OF discovery_scenario a b c loop] loop m
  have one: "(\<exists>h1. rename_loop no_faults ''Old FE'' [10, 11] (0, 1) ?h = (Inr (2, 3), h1)) \<and>
     (2::int) = 3 - 1 \<and>
     renames_accepted no_faults ''Old FE'' [10, 11] 1 scenario \<and>
     alerts_of (events (snd (run no_faults (Some ''Old FE'') scenario))) =
       [(''Successfully renamed 2 view(s).'', ''Process Complete'')]"
    by simp
  from renamed_count_invariant [OF discovery_scenario a b c' loop'] loop' f
  have two: "(\<exists>h1. rename_loop scenario_faults ''Old FE'' [10] (0, 1) ?h = (Inr (1, 2), h1) \<and>
         scenario_faults (doc h1) 11 (final_name ''Old FE'' 2) \<noteq> None) \<and>
     fst (rename_loop scenario_faults ''Old FE'' [10, 11] (0, 1) ?h) = Inl SystemExit"
    by simp
  from one two show ?thesis by (intro conjI) simp_all
qed

end
